theory Spec2Isabelle
  imports Main "HOL-Library.AList"
begin

section \<open>JavaScript values, objects and the local store\<close>

text \<open>
  The client (\<^verbatim>\<open>src/simpleDDP.ts\<close>) keeps \<^verbatim>\<open>collections\<close>, an object that maps a
  collection name to an array of documents; a document is a plain object whose
  identifier is the value of its key \<^verbatim>\<open>_id\<close>. Objects are association lists in
  insertion order; reading a missing key yields \<^verbatim>\<open>undefined\<close>. Numbers are
  integers here (no NaN, no fractions).
\<close>

datatype jsval =
    JUndefined
  | JNull
  | JBool bool
  | JNum int
  | JStr string
  | JArr "jsval list"
  | JObj "(string \<times> jsval) list"

type_synonym document = "(string \<times> jsval) list"

type_synonym store = "(string \<times> document list) list"

text \<open>
  The comparison \<^verbatim>\<open>obj._id == m.id\<close> is JavaScript's loose equality. It is exact
  here for two operands of the same primitive type and for \<^verbatim>\<open>undefined\<close>/\<^verbatim>\<open>null\<close>
  against anything. JavaScript coerces operands of different primitive types
  (\<^verbatim>\<open>1 == "1"\<close>) and compares two objects by reference; neither is modelled (the last
  equation answers False). The theorems below that rest on what the comparison
  answers are therefore stated for identifiers that are strings, which is what
  DDP sends.
\<close>

fun loose_eq :: "jsval \<Rightarrow> jsval \<Rightarrow> bool" where
  "loose_eq JUndefined JUndefined = True"
| "loose_eq JUndefined JNull = True"
| "loose_eq JNull JUndefined = True"
| "loose_eq JNull JNull = True"
| "loose_eq (JBool a) (JBool b) = (a = b)"
| "loose_eq (JNum a) (JNum b) = (a = b)"
| "loose_eq (JStr a) (JStr b) = (a = b)"
| "loose_eq _ _ = False"

fun is_JStr :: "jsval \<Rightarrow> bool" where
  "is_JStr (JStr _) = True"
| "is_JStr _ = False"

definition hasOwnProperty :: "('k \<times> 'v) list \<Rightarrow> 'k \<Rightarrow> bool" where
  "hasOwnProperty obj k = (map_of obj k \<noteq> None)"

text \<open>\<^verbatim>\<open>obj[k]\<close> on a document: \<^verbatim>\<open>undefined\<close> when the key is absent.\<close>

definition get_prop :: "document \<Rightarrow> string \<Rightarrow> jsval" where
  "get_prop obj k = (case map_of obj k of None \<Rightarrow> JUndefined | Some v \<Rightarrow> v)"

text \<open>
  \<^verbatim>\<open>this.collections[name]\<close>, read where the code has made sure the key exists or
  falls back to the empty array (\<^verbatim>\<open>c ? fullCopy(c) : []\<close> in fetch).
\<close>

definition coll :: "store \<Rightarrow> string \<Rightarrow> document list" where
  "coll cs name = (case map_of cs name of None \<Rightarrow> [] | Some ds \<Rightarrow> ds)"

text \<open>\<^verbatim>\<open>Object.assign(target, source)\<close>: every key of the source is written into the target.\<close>

definition Object_assign :: "('k \<times> 'v) list \<Rightarrow> ('k \<times> 'v) list \<Rightarrow> ('k \<times> 'v) list" where
  "Object_assign target source = fold (\<lambda>(k, v). AList.update k v) source target"

text \<open>\<^verbatim>\<open>delete obj[k]\<close> for every \<^verbatim>\<open>k\<close> of a list, in order.\<close>

definition delete_keys :: "'k list \<Rightarrow> ('k \<times> 'v) list \<Rightarrow> ('k \<times> 'v) list" where
  "delete_keys ks obj = fold AList.delete ks obj"

text \<open>\<^verbatim>\<open>Array.prototype.findIndex\<close>: \<^verbatim>\<open>-1\<close> is None.\<close>

fun findIndex :: "('a \<Rightarrow> bool) \<Rightarrow> 'a list \<Rightarrow> nat option" where
  "findIndex p [] = None"
| "findIndex p (x # xs) = (if p x then Some 0 else map_option Suc (findIndex p xs))"

text \<open>\<^verbatim>\<open>arr.splice(i, 1)\<close>: the array without its element at index \<^verbatim>\<open>i\<close>.\<close>

definition splice_one :: "nat \<Rightarrow> 'a list \<Rightarrow> 'a list" where
  "splice_one i xs = take i xs @ drop (Suc i) xs"

text \<open>
  Modelled from the spec: \<^verbatim>\<open>helpers/fullCopy.js\<close> is not among the sources; the spec
  calls its result a deep copy. Values here are immutable terms, so a deep copy
  of a value is that value, and no later change of the store can reach it.
\<close>

definition fullCopy :: "'a \<Rightarrow> 'a" where
  "fullCopy v = v"

section \<open>Messages, listeners and notifications\<close>

text \<open>
  A DDP message (\<^verbatim>\<open>DDPMessage\<close>): \<^verbatim>\<open>fields\<close> and \<^verbatim>\<open>cleared\<close> may be absent
  (None), which is what the guards \<^verbatim>\<open>if (m.fields)\<close> and \<^verbatim>\<open>if (m.cleared)\<close> test.
\<close>

record ddp_message =
  m_collection :: string
  m_id :: jsval
  m_fields :: "document option"
  m_cleared :: "string list option"

text \<open>
  An entry of \<^verbatim>\<open>onChangeFuncs\<close>. The dispatchers test
  \<^verbatim>\<open>l.hasOwnProperty('filter')\<close> and then call \<^verbatim>\<open>l.filter(...)\<close>, so three cases
  matter: the listener object has no own property \<^verbatim>\<open>filter\<close>; it has one that is
  not a function (\<^verbatim>\<open>undefined\<close> or a boolean), and calling it is a TypeError; or it
  has a predicate, called with a document, an index and the collection array and
  read for its truth value. The callback \<^verbatim>\<open>f\<close> is not stored: calling it is recorded
  as a notification, paired with the listener's position in \<^verbatim>\<open>onChangeFuncs\<close>;
  callbacks and predicates do not change the client and do not throw.
\<close>

datatype own_filter =
    NoFilter
  | NotCallable
  | Predicate "document \<Rightarrow> nat \<Rightarrow> document list \<Rightarrow> bool"

record listener =
  l_collection :: string
  l_filter :: own_filter

datatype js_error = TypeError

text \<open>
  The object handed to a callback. A key that holds \<^verbatim>\<open>false\<close> or is absent is None.
  \<^verbatim>\<open>p_fields\<close> is the \<^verbatim>\<open>fields\<close> flag object (1 = set, 0 = cleared).
\<close>

record change_payload =
  p_prev :: "document option"
  p_next :: "document option"
  p_fields :: "(string \<times> nat) list option"
  p_fieldsChanged :: "document option"
  p_fieldsRemoved :: "string list option"
  p_predicatePassed :: "(bool \<times> bool) option"

text \<open>
  \<^verbatim>\<open>Envelope c a r\<close> is \<^verbatim>\<open>{changed: c, added: a, removed: r}\<close>, the shape given to
  listeners without a predicate; \<^verbatim>\<open>Bare p\<close> is the payload \<^verbatim>\<open>{prev, next, ...}\<close>
  given directly to listeners with a predicate.
\<close>

datatype notification =
    Envelope "change_payload option" "document option" "document option"
  | Bare change_payload

text \<open>
  Modelled from the spec: \<^verbatim>\<open>classes/ddpSubscription.js\<close> is not among the sources.
  The spec gives a Subscription a name, an ordered argument sequence and a state
  in {active, stopped}; \<^verbatim>\<open>isStopped()\<close> reads the state and \<^verbatim>\<open>start()\<close> makes it
  active. A Subscription object is identified by its position in \<^verbatim>\<open>subs\<close>, where
  \<^verbatim>\<open>sub\<close> only ever appends.
\<close>

record ddpSubscription =
  pubname :: string
  args :: "jsval list"
  stopped :: bool

definition isStopped :: "ddpSubscription \<Rightarrow> bool" where
  "isStopped sb = stopped sb"

definition start :: "ddpSubscription \<Rightarrow> ddpSubscription" where
  "start sb = sb\<lparr>stopped := False\<rparr>"

text \<open>
  What the client asks of the Transport (\<^verbatim>\<open>this.ddpConnection\<close>, class \<^verbatim>\<open>DDP\<close>, not
  among the sources), in call order: \<^verbatim>\<open>connect()\<close>, \<^verbatim>\<open>disconnect()\<close>,
  \<^verbatim>\<open>method(name, args, atBeginning)\<close>, \<^verbatim>\<open>on(event, handler)\<close> and
  \<^verbatim>\<open>emit(event, message, tag)\<close>. A tag \<^verbatim>\<open>this._id + "-" + this._opGenId()\<close> is the
  pair of the two numbers.
\<close>

type_synonym op_tag = "nat \<times> nat"

datatype transport_call =
    Connect
  | Disconnect
  | Method string "jsval list" bool
  | On string
  | Emit string ddp_message op_tag

record simpleDDP =
  instance_id :: nat
  opGenId :: nat
  opts_autoReconnect :: "bool option"
  ddpConnection :: "transport_call list"
  subs :: "ddpSubscription list"
  collections :: store
  onChangeFuncs :: "listener list"
  connected :: bool
  maxTimeout :: "nat option"
  tryingToConnect :: bool
  tryingToDisconnect :: bool
  willTryToReconnect :: bool

text \<open>\<^verbatim>\<open>fields[p] = 1\<close> for every key of \<^verbatim>\<open>m.fields\<close>.\<close>

definition flag_keys :: "nat \<Rightarrow> string list \<Rightarrow> (string \<times> nat) list \<Rightarrow> (string \<times> nat) list" where
  "flag_keys b ks flags = fold (\<lambda>p. AList.update p b) ks flags"

definition field_flags :: "document option \<Rightarrow> (string \<times> nat) list" where
  "field_flags fs = (case fs of None \<Rightarrow> [] | Some o' \<Rightarrow> flag_keys 1 (map fst o') [])"

section \<open>The three dispatchers\<close>

text \<open>
  \<^verbatim>\<open>dispatchAdded\<close>, lines 204-239. \<^verbatim>\<open>evict_stale\<close> is its first block (the
  document with the message's id is spliced out), \<^verbatim>\<open>ensure_collection\<close> the line
  \<^verbatim>\<open>if (!this.collections.hasOwnProperty(c)) this.collections[c] = []\<close>.
\<close>

definition same_id :: "jsval \<Rightarrow> document \<Rightarrow> bool" where
  "same_id i obj = loose_eq (get_prop obj ''_id'') i"

definition evict_stale :: "store \<Rightarrow> ddp_message \<Rightarrow> store" where
  "evict_stale cs m =
    (if hasOwnProperty cs (m_collection m)
     then (case findIndex (same_id (m_id m)) (coll cs (m_collection m)) of
             Some i \<Rightarrow> AList.update (m_collection m) (splice_one i (coll cs (m_collection m))) cs
           | None \<Rightarrow> cs)
     else cs)"

definition ensure_collection :: "store \<Rightarrow> string \<Rightarrow> store" where
  "ensure_collection cs name = (if \<not> hasOwnProperty cs name then AList.update name [] cs else cs)"

definition newObj_of :: "ddp_message \<Rightarrow> document" where
  "newObj_of m = Object_assign [(''_id'', m_id m)] (case m_fields m of None \<Rightarrow> [] | Some fs \<Rightarrow> fs)"

text \<open>
  \<^verbatim>\<open>this.onChangeFuncs.forEach(...)\<close>: the listeners are visited in order; what the
  body does for one listener is either the calls it makes of the callback or the
  error it throws, and an error ends the loop and leaves the dispatcher. A
  dispatcher gives the client, the calls made and the error thrown, if any.
\<close>

fun forEach :: "('a \<Rightarrow> js_error + 'b list) \<Rightarrow> 'a list \<Rightarrow> 'b list \<times> js_error option" where
  "forEach body [] = ([], None)"
| "forEach body (x # xs) =
     (case body x of
        Inl e \<Rightarrow> ([], Some e)
      | Inr calls \<Rightarrow> (case forEach body xs of (later, e) \<Rightarrow> (calls @ later, e)))"

type_synonym dispatched = "simpleDDP \<times> (nat \<times> notification) list \<times> js_error option"

definition added_notify :: "ddp_message \<Rightarrow> document \<Rightarrow> nat \<Rightarrow> document list \<Rightarrow> nat \<times> listener \<Rightarrow> js_error + (nat \<times> notification) list" where
  "added_notify m newObj i arr jl =
    (case jl of (j, l) \<Rightarrow>
      if l_collection l = m_collection m then
        (let newObjFullCopy = fullCopy newObj in
         case l_filter l of
           NoFilter \<Rightarrow> Inr [(j, Envelope None (Some newObjFullCopy) None)]
         | NotCallable \<Rightarrow> Inl TypeError
         | Predicate flt \<Rightarrow>
             if flt newObjFullCopy (i - 1) arr
             then Inr [(j, Bare \<lparr>p_prev = None, p_next = Some newObjFullCopy,
                              p_fields = Some (field_flags (m_fields m)),
                              p_fieldsChanged = Some newObjFullCopy,
                              p_fieldsRemoved = Some [], p_predicatePassed = None\<rparr>)]
             else Inr [])
      else Inr [])"

definition dispatchAdded :: "simpleDDP \<Rightarrow> ddp_message \<Rightarrow> dispatched" where
  "dispatchAdded s m =
    (let name = m_collection m;
         cs1 = evict_stale (collections s) m;
         cs2 = ensure_collection cs1 name;
         newObj = newObj_of m;
         cs3 = AList.update name (coll cs2 name @ [newObj]) cs2;
         i = length (coll cs3 name)
     in (s\<lparr>collections := cs3\<rparr>,
         forEach (added_notify m newObj i (coll cs3 name)) (enumerate 0 (onChangeFuncs s))))"

text \<open>
  \<^verbatim>\<open>dispatchChanged\<close>, lines 246-304. \<^verbatim>\<open>changed_doc\<close> is what the two guarded
  blocks do to the live document: \<^verbatim>\<open>Object.assign(doc, m.fields)\<close>, then
  \<^verbatim>\<open>delete doc[fieldName]\<close> for every cleared name; \<^verbatim>\<open>changed_flags\<close> is the
  \<^verbatim>\<open>fields\<close> object they fill. When no document has the id, the message goes to
  \<^verbatim>\<open>dispatchAdded\<close>.
\<close>

definition changed_doc :: "ddp_message \<Rightarrow> document \<Rightarrow> document" where
  "changed_doc m doc =
    (let d1 = (case m_fields m of None \<Rightarrow> doc | Some fs \<Rightarrow> Object_assign doc fs)
     in (case m_cleared m of None \<Rightarrow> d1 | Some ks \<Rightarrow> delete_keys ks d1))"

definition changed_flags :: "ddp_message \<Rightarrow> (string \<times> nat) list" where
  "changed_flags m =
    (let f1 = field_flags (m_fields m)
     in (case m_cleared m of None \<Rightarrow> f1 | Some ks \<Rightarrow> flag_keys 0 ks f1))"

definition changed_notify :: "ddp_message \<Rightarrow> document \<Rightarrow> document \<Rightarrow> nat \<Rightarrow> document list \<Rightarrow> nat \<times> listener \<Rightarrow> js_error + (nat \<times> notification) list" where
  "changed_notify m prv nxt i arr jl =
    (case jl of (j, l) \<Rightarrow>
      if l_collection l = m_collection m then
        (let fields = changed_flags m;
             fieldsChanged = (case m_fields m of None \<Rightarrow> [] | Some fs \<Rightarrow> fs);
             fieldsRemoved = (case m_cleared m of None \<Rightarrow> [] | Some ks \<Rightarrow> ks) in
         case l_filter l of
           NoFilter \<Rightarrow> Inr [(j, Envelope (Some \<lparr>p_prev = Some prv, p_next = Some (fullCopy nxt),
                              p_fields = Some fields, p_fieldsChanged = Some fieldsChanged,
                              p_fieldsRemoved = Some fieldsRemoved, p_predicatePassed = None\<rparr>) None None)]
         | NotCallable \<Rightarrow> Inl TypeError
         | Predicate flt \<Rightarrow>
             (let fCopyNext = fullCopy nxt;
                  prevFilter = flt prv i arr;
                  nextFilter = flt fCopyNext i arr
              in if prevFilter \<or> nextFilter
                 then Inr [(j, Bare \<lparr>p_prev = Some prv, p_next = Some fCopyNext,
                              p_fields = Some fields, p_fieldsChanged = Some fieldsChanged,
                              p_fieldsRemoved = Some fieldsRemoved,
                              p_predicatePassed = Some (prevFilter, nextFilter)\<rparr>)]
                 else Inr []))
      else Inr [])"

definition dispatchChanged :: "simpleDDP \<Rightarrow> ddp_message \<Rightarrow> dispatched" where
  "dispatchChanged s m =
    (let name = m_collection m;
         cs1 = ensure_collection (collections s) name
     in case findIndex (same_id (m_id m)) (coll cs1 name) of
          Some i \<Rightarrow>
            (let prv = fullCopy (coll cs1 name ! i);
                 nxt = changed_doc m (coll cs1 name ! i);
                 cs2 = AList.update name ((coll cs1 name)[i := nxt]) cs1
             in (s\<lparr>collections := cs2\<rparr>,
                 forEach (changed_notify m prv nxt i (coll cs2 name)) (enumerate 0 (onChangeFuncs s))))
        | None \<Rightarrow> dispatchAdded (s\<lparr>collections := cs1\<rparr>) m)"

text \<open>\<^verbatim>\<open>dispatchRemoved\<close>, lines 311-335.\<close>

definition removed_notify :: "ddp_message \<Rightarrow> document \<Rightarrow> nat \<Rightarrow> document list \<Rightarrow> nat \<times> listener \<Rightarrow> js_error + (nat \<times> notification) list" where
  "removed_notify m removedObj i arr jl =
    (case jl of (j, l) \<Rightarrow>
      if l_collection l = m_collection m then
        (case l_filter l of
           NoFilter \<Rightarrow> Inr [(j, Envelope None None (Some removedObj))]
         | NotCallable \<Rightarrow> Inl TypeError
         | Predicate flt \<Rightarrow>
             if flt removedObj i arr
             then Inr [(j, Bare \<lparr>p_prev = Some removedObj, p_next = None, p_fields = None,
                              p_fieldsChanged = None, p_fieldsRemoved = None,
                              p_predicatePassed = None\<rparr>)]
             else Inr [])
      else Inr [])"

definition dispatchRemoved :: "simpleDDP \<Rightarrow> ddp_message \<Rightarrow> dispatched" where
  "dispatchRemoved s m =
    (let name = m_collection m;
         cs1 = ensure_collection (collections s) name
     in case findIndex (same_id (m_id m)) (coll cs1 name) of
          Some i \<Rightarrow>
            (let removedObj = coll cs1 name ! i;
                 cs2 = AList.update name (splice_one i (coll cs1 name)) cs1
             in (s\<lparr>collections := cs2\<rparr>,
                 forEach (removed_notify m removedObj i (coll cs2 name)) (enumerate 0 (onChangeFuncs s))))
        | None \<Rightarrow> (s\<lparr>collections := cs1\<rparr>, [], None))"

section \<open>Connection and remote calls\<close>

text \<open>
  A promise right after the call that made it. \<^verbatim>\<open>Waiting t\<close>: a handler was
  registered for the event that settles it, and \<^verbatim>\<open>t\<close> says whether a timeout was
  armed (\<^verbatim>\<open>if (this.maxTimeout)\<close>: a number other than 0).
\<close>

datatype promise = Resolved | Waiting bool

definition timeout_armed :: "simpleDDP \<Rightarrow> bool" where
  "timeout_armed s = (case maxTimeout s of None \<Rightarrow> False | Some t \<Rightarrow> t \<noteq> 0)"

text \<open>\<^verbatim>\<open>connect\<close>, lines 342-370.\<close>

definition connect :: "simpleDDP \<Rightarrow> simpleDDP \<times> promise" where
  "connect s =
    (let s1 = s\<lparr>willTryToReconnect := (case opts_autoReconnect s of None \<Rightarrow> True | Some b \<Rightarrow> b)\<rparr>;
         s2 = (if \<not> tryingToConnect s1
               then s1\<lparr>ddpConnection := ddpConnection s1 @ [Connect], tryingToConnect := True\<rparr>
               else s1)
     in if \<not> connected s2
        then (s2\<lparr>ddpConnection := ddpConnection s2 @ [On ''connected'']\<rparr>, Waiting (timeout_armed s2))
        else (s2, Resolved))"

text \<open>
  \<^verbatim>\<open>apply\<close>, lines 419-447: the Transport's \<^verbatim>\<open>method\<close> is called, a \<^verbatim>\<open>result\<close>
  listener is registered, and the promise waits for the result.
\<close>

definition apply_method :: "simpleDDP \<Rightarrow> string \<Rightarrow> jsval list option \<Rightarrow> bool \<Rightarrow> simpleDDP \<times> promise" where
  "apply_method s method margs atBeginning =
    (s\<lparr>ddpConnection := ddpConnection s @
         [Method method (case margs of None \<Rightarrow> [] | Some a \<Rightarrow> a) atBeginning, On ''result'']\<rparr>,
     Waiting (timeout_armed s))"

section \<open>Subscriptions\<close>

text \<open>
  \<^verbatim>\<open>sub\<close>, lines 469-481. \<^verbatim>\<open>helpers/isEqual.js\<close> is not among the sources: the
  comparison is the parameter \<^verbatim>\<open>isEqual\<close>. The result is the state and the position
  in \<^verbatim>\<open>subs\<close> of the Subscription object that is returned.
\<close>

definition normalize_args :: "jsval \<Rightarrow> jsval list" where
  "normalize_args a = (case a of JArr xs \<Rightarrow> xs | _ \<Rightarrow> [])"

definition sub :: "(jsval list \<Rightarrow> jsval list \<Rightarrow> bool) \<Rightarrow> simpleDDP \<Rightarrow> string \<Rightarrow> jsval \<Rightarrow> simpleDDP \<times> nat" where
  "sub isEqual s pn a =
    (let (s1, k) = apply_method s ''foo'' (Some [JNum 123, JNum 2]) False;
         hasSuchSub = findIndex (\<lambda>sb. pubname sb = pn \<and> isEqual (args sb) (normalize_args a)) (subs s1)
     in case hasSuchSub of
          None \<Rightarrow>
            (let subs' = subs s1 @ [\<lparr>pubname = pn, args = normalize_args a, stopped = False\<rparr>];
                 i = length subs'
             in (s1\<lparr>subs := subs'\<rparr>, i - 1))
        | Some j \<Rightarrow>
            (if isStopped (subs s1 ! j)
             then (s1\<lparr>subs := (subs s1)[j := start (subs s1 ! j)]\<rparr>, j)
             else (s1, j)))"

definition subscribe :: "(jsval list \<Rightarrow> jsval list \<Rightarrow> bool) \<Rightarrow> simpleDDP \<Rightarrow> string \<Rightarrow> jsval list \<Rightarrow> simpleDDP \<times> nat" where
  "subscribe isEqual s pn as = sub isEqual s pn (JArr as)"

section \<open>Bulk operations\<close>

text \<open>
  \<^verbatim>\<open>clearData\<close> (lines 527-561) and \<^verbatim>\<open>importData\<close> (lines 569-606) count
  documents, register a counting listener and emit one message per document.
  \<^verbatim>\<open>bulk_op\<close> is the state of that listener's closure: its tag, its counter, the
  expected total, whether it is still registered and whether \<^verbatim>\<open>resolve()\<close> ran.
\<close>

record bulk_op =
  op_uniqueId :: op_tag
  op_counter :: nat
  op_totalDocuments :: nat
  op_listening :: bool
  op_resolved :: bool

definition Object_keys :: "('k \<times> 'v) list \<Rightarrow> 'k list" where
  "Object_keys obj = map fst obj"

definition count_documents :: "store \<Rightarrow> nat" where
  "count_documents c = fold (\<lambda>collection total. total + length (coll c collection)) (Object_keys c) 0"

text \<open>The callback \<^verbatim>\<open>(m, id) => {...}\<close> of both operations; an event without a tag has id None.\<close>

definition bulk_listener :: "bulk_op \<Rightarrow> op_tag option \<Rightarrow> bulk_op" where
  "bulk_listener op i =
    (if i = Some (op_uniqueId op)
     then (let op1 = op\<lparr>op_counter := op_counter op + 1\<rparr>
           in if op_counter op1 = op_totalDocuments op1
              then op1\<lparr>op_listening := False, op_resolved := True\<rparr>
              else op1)
     else op)"

definition removed_messages :: "store \<Rightarrow> ddp_message list" where
  "removed_messages c =
    concat (map (\<lambda>collection.
        map (\<lambda>doc. \<lparr>m_collection = collection, m_id = get_prop doc ''id'',
                     m_fields = None, m_cleared = None\<rparr>) (coll c collection))
      (Object_keys c))"

text \<open>
  The result of a bulk operation: None when the promise resolved at once and no
  listener was registered, otherwise the counting listener's state.
\<close>

definition clearData :: "simpleDDP \<Rightarrow> simpleDDP \<times> bulk_op option" where
  "clearData s =
    (let totalDocuments = count_documents (collections s)
     in if totalDocuments = 0 then (s, None)
        else
          (let uniqueId = (instance_id s, opGenId s)
           in (s\<lparr>opGenId := opGenId s + 1,
                  ddpConnection := ddpConnection s @ [On ''removed''] @
                    map (\<lambda>m. Emit ''removed'' m uniqueId) (removed_messages (collections s))\<rparr>,
               Some \<lparr>op_uniqueId = uniqueId, op_counter = 0, op_totalDocuments = totalDocuments,
                     op_listening = True, op_resolved = False\<rparr>)))"

text \<open>
  The data given to \<^verbatim>\<open>importData\<close>: a text, decoded by \<^verbatim>\<open>EJSON.parse\<close> (a library,
  the parameter \<^verbatim>\<open>parse\<close>; None when it throws), or the mapping itself. The mapping
  takes collection names to arrays of documents, so \<^verbatim>\<open>Array.isArray(c[collection])\<close>
  holds for each of its keys.
\<close>

datatype import_data = Text string | Raw store

definition added_messages :: "store \<Rightarrow> ddp_message list" where
  "added_messages c =
    concat (map (\<lambda>collection.
        map (\<lambda>doc. \<lparr>m_collection = collection, m_id = get_prop doc ''id'',
                     m_fields = Some (AList.delete ''id'' (Object_assign [] doc)),
                     m_cleared = None\<rparr>) (coll c collection))
      (Object_keys c))"

text \<open>The result is None when \<^verbatim>\<open>EJSON.parse\<close> throws and the promise is rejected.\<close>

definition importData :: "(string \<Rightarrow> store option) \<Rightarrow> simpleDDP \<Rightarrow> import_data \<Rightarrow> (simpleDDP \<times> bulk_op) option" where
  "importData parse s data =
    (case (case data of Text t \<Rightarrow> parse t | Raw r \<Rightarrow> Some r) of
       None \<Rightarrow> None
     | Some c \<Rightarrow>
        (let totalDocuments = count_documents c;
             uniqueId = (instance_id s, opGenId s)
         in Some (s\<lparr>opGenId := opGenId s + 1,
                     ddpConnection := ddpConnection s @ [On ''added''] @
                       map (\<lambda>m. Emit ''added'' m uniqueId) (added_messages c)\<rparr>,
                  \<lparr>op_uniqueId = uniqueId, op_counter = 0, op_totalDocuments = totalDocuments,
                   op_listening = True, op_resolved = False\<rparr>)))"

text \<open>
  Modelled from the spec: the Transport (class \<^verbatim>\<open>DDP\<close>) is not among the sources.
  By the spec an emitted message arrives later as an event, events arrive in the
  order they were emitted, and the handlers of an event run in the order they
  were registered: for \<^verbatim>\<open>added\<close> and \<^verbatim>\<open>removed\<close> that is the constructor's
  dispatcher first, then the counting listener of a bulk operation while it is
  registered. The spec does not say what follows a handler that throws; as with
  JavaScript's event emitters the error leaves \<^verbatim>\<open>emit\<close>, and the handlers after
  it are not called for that event.
\<close>

definition deliver_removed :: "ddp_message \<times> op_tag option \<Rightarrow> simpleDDP \<times> bulk_op \<Rightarrow> simpleDDP \<times> bulk_op" where
  "deliver_removed ev st =
    (case ev of (m, i) \<Rightarrow> case st of (s, op) \<Rightarrow>
      (case dispatchRemoved s m of (s', calls, thrown) \<Rightarrow>
        (s', if thrown = None \<and> op_listening op then bulk_listener op i else op)))"

definition deliver_added :: "ddp_message \<times> op_tag option \<Rightarrow> simpleDDP \<times> bulk_op \<Rightarrow> simpleDDP \<times> bulk_op" where
  "deliver_added ev st =
    (case ev of (m, i) \<Rightarrow> case st of (s, op) \<Rightarrow>
      (case dispatchAdded s m of (s', calls, thrown) \<Rightarrow>
        (s', if thrown = None \<and> op_listening op then bulk_listener op i else op)))"

text \<open>The events that the Transport's log of emitted messages turns into.\<close>

fun emitted :: "string \<Rightarrow> transport_call list \<Rightarrow> (ddp_message \<times> op_tag option) list" where
  "emitted ev [] = []"
| "emitted ev (Emit e m t # cs) = (if e = ev then (m, Some t) # emitted ev cs else emitted ev cs)"
| "emitted ev (_ # cs) = emitted ev cs"

section \<open>Queries\<close>

text \<open>
  \<^verbatim>\<open>ddpCollection.fetch\<close>, \<^verbatim>\<open>src/classes/ddpCollection.ts\<close> lines 84-100. A number
  given as \<^verbatim>\<open>skip\<close> or \<^verbatim>\<open>limit\<close> is an integer or \<^verbatim>\<open>Infinity\<close>; a setting that is
  absent is None, and so is a \<^verbatim>\<open>_filter\<close> or \<^verbatim>\<open>sort\<close> that is \<^verbatim>\<open>false\<close>.
\<close>

datatype jsnumber = Fin int | Infinity

record fetch_settings =
  s_skip :: "jsnumber option"
  s_limit :: "jsnumber option"
  s_sort :: "(document \<Rightarrow> document \<Rightarrow> int) option"

record ddpCollection =
  c_name :: string
  c_filter :: "(document \<Rightarrow> nat \<Rightarrow> document list \<Rightarrow> bool) option"

text \<open>\<^verbatim>\<open>arr.filter(f)\<close>: \<^verbatim>\<open>f\<close> receives the element, its index and the array.\<close>

definition array_filter :: "('a \<Rightarrow> nat \<Rightarrow> 'a list \<Rightarrow> bool) \<Rightarrow> 'a list \<Rightarrow> 'a list" where
  "array_filter f xs = map snd (filter (\<lambda>(i, x). f x i xs) (enumerate 0 xs))"

text \<open>
  \<^verbatim>\<open>arr.sort(cmp)\<close>: a stable sort by the comparator, here by insertion. (For a
  comparator that is not a consistent ordering JavaScript leaves the resulting
  order to the engine.)
\<close>

fun insert_by :: "('a \<Rightarrow> 'a \<Rightarrow> int) \<Rightarrow> 'a \<Rightarrow> 'a list \<Rightarrow> 'a list" where
  "insert_by cmp x [] = [x]"
| "insert_by cmp x (y # ys) = (if cmp x y \<le> 0 then x # y # ys else y # insert_by cmp x ys)"

definition array_sort :: "('a \<Rightarrow> 'a \<Rightarrow> int) \<Rightarrow> 'a list \<Rightarrow> 'a list" where
  "array_sort cmp xs = foldr (insert_by cmp) xs []"

text \<open>
  \<^verbatim>\<open>arr.splice(0, skip)\<close> removes \<^verbatim>\<open>min(max(skip, 0), length)\<close> elements from the
  front. \<^verbatim>\<open>arr.splice(limit)\<close> removes everything from the start index on; a
  negative start index counts from the end of the array.
\<close>

definition splice_front :: "jsnumber \<Rightarrow> 'a list \<Rightarrow> 'a list" where
  "splice_front n xs = (case n of Fin k \<Rightarrow> drop (nat k) xs | Infinity \<Rightarrow> [])"

definition splice_from :: "jsnumber \<Rightarrow> 'a list \<Rightarrow> 'a list" where
  "splice_from n xs =
    (case n of
       Fin k \<Rightarrow> (if k < 0 then take (nat (max (int (length xs) + k) 0)) xs else take (nat k) xs)
     | Infinity \<Rightarrow> xs)"

definition fetch :: "simpleDDP \<Rightarrow> ddpCollection \<Rightarrow> fetch_settings option \<Rightarrow> document list" where
  "fetch server col settings =
    (let skip = (case settings of None \<Rightarrow> None | Some st \<Rightarrow> s_skip st);
         limit = (case settings of None \<Rightarrow> None | Some st \<Rightarrow> s_limit st);
         srt = (case settings of None \<Rightarrow> None | Some st \<Rightarrow> s_sort st);
         c = map_of (collections server) (c_name col);
         copy0 = (case c of None \<Rightarrow> [] | Some ds \<Rightarrow> fullCopy ds);
         copy1 = (case c_filter col of None \<Rightarrow> copy0 | Some f \<Rightarrow> array_filter f copy0);
         copy2 = (case srt of None \<Rightarrow> copy1 | Some cmp \<Rightarrow> array_sort cmp copy1);
         copy3 = (case skip of None \<Rightarrow> copy2 | Some n \<Rightarrow> splice_front n copy2);
         copy4 = (case limit of None \<Rightarrow> copy3 | Some n \<Rightarrow> splice_from n copy3)
     in copy4)"

text \<open>
  \<^verbatim>\<open>ddpCollection.onChange\<close>, \<^verbatim>\<open>src/classes/ddpCollection.ts\<close> lines 121-132. The
  listener object is built as \<^verbatim>\<open>{collection, f, filter}\<close>, so it always has an own
  property \<^verbatim>\<open>filter\<close>; it holds the argument \<^verbatim>\<open>filter\<close> if that is given, else the
  collection's \<^verbatim>\<open>_filter\<close> if that is set, else \<^verbatim>\<open>undefined\<close>. (An argument that is
  absent or \<^verbatim>\<open>false\<close> is None.)

  Modelled from the spec: \<^verbatim>\<open>classes/ddpOnChange.js\<close> is not among the sources. By
  the spec a change-observation call registers the listener, and listeners are
  called in registration order: the object is appended to \<^verbatim>\<open>onChangeFuncs\<close>.
\<close>

definition onChange_obj :: "ddpCollection \<Rightarrow> (document \<Rightarrow> nat \<Rightarrow> document list \<Rightarrow> bool) option \<Rightarrow> listener" where
  "onChange_obj col flt =
     (let obj = \<lparr>l_collection = c_name col,
                 l_filter = (case flt of None \<Rightarrow> NotCallable | Some p \<Rightarrow> Predicate p)\<rparr>;
          obj1 = (case c_filter col of None \<Rightarrow> obj | Some q \<Rightarrow> obj\<lparr>l_filter := Predicate q\<rparr>);
          obj2 = (case flt of None \<Rightarrow> obj1 | Some p \<Rightarrow> obj1\<lparr>l_filter := Predicate p\<rparr>)
      in obj2)"

definition onChange :: "simpleDDP \<Rightarrow> ddpCollection \<Rightarrow> (document \<Rightarrow> nat \<Rightarrow> document list \<Rightarrow> bool) option \<Rightarrow> simpleDDP" where
  "onChange server col flt = server\<lparr>onChangeFuncs := onChangeFuncs server @ [onChange_obj col flt]\<rparr>"

section \<open>Auxiliary notions for the proofs\<close>

text \<open>The test that \<^verbatim>\<open>sub\<close> hands to \<^verbatim>\<open>find\<close>.\<close>

definition matches :: "(jsval list \<Rightarrow> jsval list \<Rightarrow> bool) \<Rightarrow> string \<Rightarrow> jsval \<Rightarrow> ddpSubscription \<Rightarrow> bool" where
  "matches eq pn a sb = (pubname sb = pn \<and> eq (args sb) (normalize_args a))"

text \<open>
  What the first block of \<^verbatim>\<open>dispatchAdded\<close> and the splice of \<^verbatim>\<open>dispatchRemoved\<close>
  leave of an array: the array without its first document of the given id.
\<close>

definition evicted :: "jsval \<Rightarrow> document list \<Rightarrow> document list" where
  "evicted i ds = (case findIndex (same_id i) ds of None \<Rightarrow> ds | Some k \<Rightarrow> splice_one k ds)"

text \<open>The payloads that the callback of the listener at position \<^verbatim>\<open>j\<close> was called with, in order.\<close>

definition delivered_to :: "nat \<Rightarrow> (nat \<times> notification) list \<Rightarrow> notification list" where
  "delivered_to j ns = map snd (filter (\<lambda>(k, n). k = j) ns)"

text \<open>
  The calls a dispatcher made and the error it threw. A listener ends the loop of
  a dispatcher for the collection \<^verbatim>\<open>name\<close> when it is registered on that collection
  with an own property \<^verbatim>\<open>filter\<close> that is not callable; the loop reaches position
  \<^verbatim>\<open>j\<close> when no listener before \<^verbatim>\<open>j\<close> ends it.
\<close>

definition calls_of :: "dispatched \<Rightarrow> (nat \<times> notification) list" where
  "calls_of r = fst (snd r)"

definition thrown_of :: "dispatched \<Rightarrow> js_error option" where
  "thrown_of r = snd (snd r)"

definition aborts :: "string \<Rightarrow> listener \<Rightarrow> bool" where
  "aborts name l = (l_collection l = name \<and> l_filter l = NotCallable)"

definition reached :: "string \<Rightarrow> listener list \<Rightarrow> nat \<Rightarrow> bool" where
  "reached name ls j = list_all (\<lambda>l. \<not> aborts name l) (take j ls)"

text \<open>
  The payloads of a changed message as sets and maps: the names in \<^verbatim>\<open>cleared\<close>, and
  the value that \<^verbatim>\<open>fields\<close> gives a name. An association list stands for a
  JavaScript object when no key occurs twice in it.
\<close>

definition cleared_keys :: "ddp_message \<Rightarrow> string set" where
  "cleared_keys m = (case m_cleared m of None \<Rightarrow> {} | Some ks \<Rightarrow> set ks)"

definition field_value :: "ddp_message \<Rightarrow> string \<Rightarrow> jsval option" where
  "field_value m k = (case m_fields m of None \<Rightarrow> None | Some fs \<Rightarrow> map_of fs k)"

definition is_object :: "('k \<times> 'v) list \<Rightarrow> bool" where
  "is_object obj = distinct (map fst obj)"

definition fields_is_object :: "ddp_message \<Rightarrow> bool" where
  "fields_is_object m = (case m_fields m of None \<Rightarrow> True | Some fs \<Rightarrow> is_object fs)"

text \<open>
  The query in the spec's words (section 4.6), to be compared with \<^verbatim>\<open>fetch\<close>: over a
  deep copy of the stored sequence, filter if there is a filter, then sort if
  there is a comparator, then discard the first \<^verbatim>\<open>skip\<close> elements if \<^verbatim>\<open>skip\<close> is a
  number, then truncate to \<^verbatim>\<open>limit\<close> elements if \<^verbatim>\<open>limit\<close> is a number
  (\<^verbatim>\<open>Infinity\<close>: unbounded).
\<close>

definition discard_first :: "jsnumber \<Rightarrow> 'a list \<Rightarrow> 'a list" where
  "discard_first n xs = (case n of Fin k \<Rightarrow> drop (nat k) xs | Infinity \<Rightarrow> [])"

definition truncate_to :: "jsnumber \<Rightarrow> 'a list \<Rightarrow> 'a list" where
  "truncate_to n xs = (case n of Fin k \<Rightarrow> take (nat k) xs | Infinity \<Rightarrow> xs)"

definition if_given :: "'b option \<Rightarrow> ('b \<Rightarrow> 'a \<Rightarrow> 'a) \<Rightarrow> 'a \<Rightarrow> 'a" where
  "if_given setting step xs = (case setting of None \<Rightarrow> xs | Some v \<Rightarrow> step v xs)"

definition fetch_spec :: "simpleDDP \<Rightarrow> ddpCollection \<Rightarrow> fetch_settings \<Rightarrow> document list" where
  "fetch_spec server col st =
     if_given (s_limit st) truncate_to
       (if_given (s_skip st) discard_first
         (if_given (s_sort st) array_sort
           (if_given (c_filter col) array_filter
             (fullCopy (coll (collections server) (c_name col))))))"

text \<open>A limit that counts elements: absent, \<^verbatim>\<open>Infinity\<close>, or a number that is not negative.\<close>

definition limit_is_count :: "fetch_settings \<Rightarrow> bool" where
  "limit_is_count st = (case s_limit st of Some (Fin k) \<Rightarrow> 0 \<le> k | _ \<Rightarrow> True)"

text \<open>The comparator \<^verbatim>\<open>(a, b) => a.v - b.v\<close>.\<close>

definition number_of :: "jsval \<Rightarrow> int" where
  "number_of v = (case v of JNum n \<Rightarrow> n | _ \<Rightarrow> 0)"

definition ascending_by_v :: "document \<Rightarrow> document \<Rightarrow> int" where
  "ascending_by_v a b = number_of (get_prop a ''v'') - number_of (get_prop b ''v'')"

text \<open>
  The invariant of the store: in every collection no two documents have the
  same \<^verbatim>\<open>_id\<close>, and every \<^verbatim>\<open>_id\<close> is a string (for strings \<^verbatim>\<open>==\<close> is plain
  equality). A diff is one of the three messages; \<^verbatim>\<open>diff_ok\<close> says that its id is a
  string and that neither of its payloads names the key \<^verbatim>\<open>_id\<close>.
\<close>

definition doc_id :: "document \<Rightarrow> jsval" where
  "doc_id d = get_prop d ''_id''"

definition unique_ids :: "document list \<Rightarrow> bool" where
  "unique_ids ds = distinct (map doc_id ds)"

definition string_ids :: "document list \<Rightarrow> bool" where
  "string_ids ds = list_all (\<lambda>d. is_JStr (doc_id d)) ds"

definition store_ok :: "store \<Rightarrow> bool" where
  "store_ok cs = list_all (\<lambda>name. unique_ids (coll cs name) \<and> string_ids (coll cs name)) (Object_keys cs)"

datatype diff = Added ddp_message | Changed ddp_message | Removed ddp_message

fun diff_message :: "diff \<Rightarrow> ddp_message" where
  "diff_message (Added m) = m"
| "diff_message (Changed m) = m"
| "diff_message (Removed m) = m"

fun apply_diff :: "diff \<Rightarrow> simpleDDP \<Rightarrow> simpleDDP" where
  "apply_diff (Added m) s = fst (dispatchAdded s m)"
| "apply_diff (Changed m) s = fst (dispatchChanged s m)"
| "apply_diff (Removed m) s = fst (dispatchRemoved s m)"

definition diff_ok :: "diff \<Rightarrow> bool" where
  "diff_ok d = (is_JStr (m_id (diff_message d)) \<and>
                field_value (diff_message d) ''_id'' = None \<and>
                ''_id'' \<notin> cleared_keys (diff_message d))"

text \<open>
  Modelled from the spec: the round trip of a bulk operation through the
  Transport, which is not among the sources. \<^verbatim>\<open>new_calls\<close> is what an operation
  asked of the Transport; \<^verbatim>\<open>hear\<close> is the counting listener after events with the
  given tags have arrived (it is no longer called once it has stopped);
  \<^verbatim>\<open>clearData_run\<close> and \<^verbatim>\<open>importData_run\<close> give the client after the operation and
  after every message it emitted has arrived, in order, and say whether the
  promise has resolved by then.
\<close>

definition new_calls :: "simpleDDP \<Rightarrow> simpleDDP \<Rightarrow> transport_call list" where
  "new_calls s s' = drop (length (ddpConnection s)) (ddpConnection s')"

definition hear :: "op_tag option list \<Rightarrow> bulk_op \<Rightarrow> bulk_op" where
  "hear ids op = fold (\<lambda>i op. if op_listening op then bulk_listener op i else op) ids op"

definition count_tagged :: "op_tag \<Rightarrow> op_tag option list \<Rightarrow> nat" where
  "count_tagged t ids = length (filter (\<lambda>i. i = Some t) ids)"

definition clearData_run :: "simpleDDP \<Rightarrow> simpleDDP \<times> bool" where
  "clearData_run s =
     (case clearData s of
        (s', None) \<Rightarrow> (s', True)
      | (s', Some op) \<Rightarrow>
          (case fold deliver_removed (emitted ''removed'' (new_calls s s')) (s', op) of
             (s'', op') \<Rightarrow> (s'', op_resolved op')))"

text \<open>The decoding step of \<^verbatim>\<open>importData\<close>: \<^verbatim>\<open>typeof data === 'string' ? EJSON.parse(data) : data\<close>.\<close>

definition decode :: "(string \<Rightarrow> store option) \<Rightarrow> import_data \<Rightarrow> store option" where
  "decode parse data = (case data of Text t \<Rightarrow> parse t | Raw r \<Rightarrow> Some r)"

definition importData_run :: "(string \<Rightarrow> store option) \<Rightarrow> simpleDDP \<Rightarrow> import_data \<Rightarrow> (simpleDDP \<times> bool) option" where
  "importData_run parse s data =
     (case importData parse s data of
        None \<Rightarrow> None
      | Some (s', op) \<Rightarrow>
          (case fold deliver_added (emitted ''added'' (new_calls s s')) (s', op) of
             (s'', op') \<Rightarrow> Some (s'', op_resolved op')))"

text \<open>
  The message that \<^verbatim>\<open>importData\<close> emits for a document of the data set.
  \<^verbatim>\<open>export_shaped\<close> describes a data set as \<^verbatim>\<open>exportData\<close> writes it: its
  documents are objects that carry their identifier under \<^verbatim>\<open>_id\<close> (a value other
  than \<^verbatim>\<open>undefined\<close> and \<^verbatim>\<open>null\<close>) and have no key \<^verbatim>\<open>id\<close>.
\<close>

definition import_message :: "string \<Rightarrow> document \<Rightarrow> ddp_message" where
  "import_message collection doc =
     \<lparr>m_collection = collection, m_id = get_prop doc ''id'',
      m_fields = Some (AList.delete ''id'' (Object_assign [] doc)), m_cleared = None\<rparr>"

definition exported_doc :: "document \<Rightarrow> bool" where
  "exported_doc doc =
     (is_object doc \<and> \<not> hasOwnProperty doc ''id'' \<and>
      get_prop doc ''_id'' \<noteq> JUndefined \<and> get_prop doc ''_id'' \<noteq> JNull)"

definition export_shaped :: "store \<Rightarrow> bool" where
  "export_shaped c =
     (is_object c \<and>
      list_all (\<lambda>collection. list_all exported_doc (coll c collection)) (Object_keys c))"

text \<open>No listener holds an own property \<^verbatim>\<open>filter\<close> that is not callable.\<close>

definition callable_filters :: "simpleDDP \<Rightarrow> bool" where
  "callable_filters s = list_all (\<lambda>l. l_filter l \<noteq> NotCallable) (onChangeFuncs s)"

section \<open>Example inputs\<close>

text \<open>A connected client that holds no documents, listeners or subscriptions.\<close>

definition ex_client :: simpleDDP where
  "ex_client = \<lparr>instance_id = 0, opGenId = 0, opts_autoReconnect = None, ddpConnection = [],
     subs = [], collections = [], onChangeFuncs = [], connected = True, maxTimeout = None,
     tryingToConnect = False, tryingToDisconnect = False, willTryToReconnect = True\<rparr>"

text \<open>The same client after \<^verbatim>\<open>sub("feed", [1, 2])\<close> and after that subscription was stopped.\<close>

definition ex_feed_stopped :: simpleDDP where
  "ex_feed_stopped = ex_client\<lparr>subs := [\<lparr>pubname = ''feed'', args = [JNum 1, JNum 2], stopped = True\<rparr>]\<rparr>"

text \<open>
  The handle of the collection \<^verbatim>\<open>tasks\<close>, without a filter; the predicate
  \<^verbatim>\<open>d => d.v == 3\<close>; a client with one stored task on which first
  \<^verbatim>\<open>onChange(f, v_is_3)\<close> and then \<^verbatim>\<open>onChange(g)\<close> was called; the same client with
  the two calls in the other order; an added message for a new task with
  \<^verbatim>\<open>v: 3\<close>; and a changed message that sets \<^verbatim>\<open>v\<close> of the stored task to 3.
\<close>

definition ex_col_tasks :: ddpCollection where
  "ex_col_tasks = \<lparr>c_name = ''tasks'', c_filter = None\<rparr>"

definition v_is_3 :: "document \<Rightarrow> nat \<Rightarrow> document list \<Rightarrow> bool" where
  "v_is_3 d i arr = (get_prop d ''v'' = JNum 3)"

definition ex_task_a :: simpleDDP where
  "ex_task_a = ex_client\<lparr>collections := [(''tasks'', [[(''_id'', JStr ''a''), (''v'', JNum 1)]])]\<rparr>"

definition ex_tasks :: simpleDDP where
  "ex_tasks = onChange (onChange ex_task_a ex_col_tasks (Some v_is_3)) ex_col_tasks None"

definition ex_tasks_plain_first :: simpleDDP where
  "ex_tasks_plain_first = onChange (onChange ex_task_a ex_col_tasks None) ex_col_tasks (Some v_is_3)"

definition ex_added_b :: ddp_message where
  "ex_added_b = \<lparr>m_collection = ''tasks'', m_id = JStr ''b'', m_fields = Some [(''v'', JNum 3)], m_cleared = None\<rparr>"

definition ex_changed_a :: ddp_message where
  "ex_changed_a = \<lparr>m_collection = ''tasks'', m_id = JStr ''a'', m_fields = Some [(''v'', JNum 3)], m_cleared = None\<rparr>"

text \<open>
  A client that stores the task \<^verbatim>\<open>{_id: "a", x: 1, y: 7}\<close>; a changed message that
  sets \<^verbatim>\<open>x\<close> and clears \<^verbatim>\<open>y\<close>; and one whose \<^verbatim>\<open>fields\<close> name \<^verbatim>\<open>_id\<close> and a
  key that its \<^verbatim>\<open>cleared\<close> names too.
\<close>

definition ex_doc_axy :: simpleDDP where
  "ex_doc_axy = ex_client\<lparr>collections :=
      [(''tasks'', [[(''_id'', JStr ''a''), (''x'', JNum 1), (''y'', JNum 7)]])]\<rparr>"

definition ex_changed_xy :: ddp_message where
  "ex_changed_xy = \<lparr>m_collection = ''tasks'', m_id = JStr ''a'',
      m_fields = Some [(''x'', JNum 2)], m_cleared = Some [''y'']\<rparr>"

definition ex_changed_overlap :: ddp_message where
  "ex_changed_overlap = \<lparr>m_collection = ''tasks'', m_id = JStr ''a'',
      m_fields = Some [(''_id'', JStr ''b''), (''x'', JNum 2)], m_cleared = Some [''x'']\<rparr>"

text \<open>
  The three documents of the spec's example in a collection \<^verbatim>\<open>c\<close>, the collection
  handle without a filter, the settings of the example, and settings with the
  limit -1.
\<close>

definition ex_three :: simpleDDP where
  "ex_three = ex_client\<lparr>collections :=
      [(''c'', [[(''id'', JNum 1), (''v'', JNum 3)],
                [(''id'', JNum 2), (''v'', JNum 1)],
                [(''id'', JNum 3), (''v'', JNum 2)]])]\<rparr>"

definition ex_c :: ddpCollection where
  "ex_c = \<lparr>c_name = ''c'', c_filter = None\<rparr>"

definition ex_sort_skip_limit :: fetch_settings where
  "ex_sort_skip_limit = \<lparr>s_skip = Some (Fin 1), s_limit = Some (Fin 1), s_sort = Some ascending_by_v\<rparr>"

definition ex_limit_minus_one :: fetch_settings where
  "ex_limit_minus_one = \<lparr>s_skip = None, s_limit = Some (Fin (- 1)), s_sort = None\<rparr>"

text \<open>
  A client that stores the task \<^verbatim>\<open>{_id: "a"}\<close>; an added message with the id
  \<^verbatim>\<open>"b"\<close> whose \<^verbatim>\<open>fields\<close> carry \<^verbatim>\<open>_id: "a"\<close>; a client that stores the tasks
  \<^verbatim>\<open>{_id: null}\<close> and \<^verbatim>\<open>{_id: undefined}\<close>; an added message with the id
  \<^verbatim>\<open>undefined\<close>; and a run of five diffs.
\<close>

definition ex_one_a :: simpleDDP where
  "ex_one_a = ex_client\<lparr>collections := [(''tasks'', [[(''_id'', JStr ''a'')]])]\<rparr>"

definition ex_added_b_named_a :: ddp_message where
  "ex_added_b_named_a = \<lparr>m_collection = ''tasks'', m_id = JStr ''b'',
      m_fields = Some [(''_id'', JStr ''a'')], m_cleared = None\<rparr>"

definition ex_null_undefined :: simpleDDP where
  "ex_null_undefined = ex_client\<lparr>collections := [(''tasks'', [[(''_id'', JNull)], [(''_id'', JUndefined)]])]\<rparr>"

definition ex_added_undefined :: ddp_message where
  "ex_added_undefined = \<lparr>m_collection = ''tasks'', m_id = JUndefined, m_fields = None, m_cleared = None\<rparr>"

definition ex_diffs :: "diff list" where
  "ex_diffs =
     [Added \<lparr>m_collection = ''tasks'', m_id = JStr ''b'', m_fields = Some [(''v'', JNum 1)], m_cleared = None\<rparr>,
      Added \<lparr>m_collection = ''tasks'', m_id = JStr ''a'', m_fields = Some [(''v'', JNum 2)], m_cleared = None\<rparr>,
      Changed \<lparr>m_collection = ''tasks'', m_id = JStr ''b'', m_fields = Some [(''w'', JNum 3)], m_cleared = Some [''v'']\<rparr>,
      Changed \<lparr>m_collection = ''notes'', m_id = JStr ''n'', m_fields = None, m_cleared = None\<rparr>,
      Removed \<lparr>m_collection = ''tasks'', m_id = JStr ''b'', m_fields = None, m_cleared = None\<rparr>]"

text \<open>Two data sets for \<^verbatim>\<open>importData\<close>, as raw mappings.\<close>

definition ex_export :: store where
  "ex_export = [(''tasks'', [[(''_id'', JStr ''a''), (''x'', JNum 1)], [(''_id'', JStr ''b'')]])]"

definition ex_export_b :: store where
  "ex_export_b = [(''tasks'', [[(''_id'', JStr ''b'')]])]"

section \<open>Basic facts\<close>

lemma findIndex_Some_iff:
  "findIndex p xs = Some i \<longleftrightarrow> i < length xs \<and> p (xs ! i) \<and> (\<forall>j<i. \<not> p (xs ! j))"
proof (induction xs arbitrary: i)
  case Nil
  then show ?case by simp
next
  case (Cons x xs)
  show ?case
  proof (cases "p x")
    case True
    then show ?thesis by (cases i) auto
  next
    case False
    show ?thesis
    proof (cases i)
      case 0
      with False show ?thesis by auto
    next
      case (Suc k)
      have "(\<forall>j<Suc k. \<not> p ((x # xs) ! j)) \<longleftrightarrow> (\<forall>j<k. \<not> p (xs ! j))"
        using False by (auto simp: less_Suc_eq_0_disj)
      with False Suc Cons.IH[of k] show ?thesis by auto
    qed
  qed
qed

lemma findIndex_None_iff: "findIndex p xs = None \<longleftrightarrow> (\<forall>x\<in>set xs. \<not> p x)"
  by (induction xs) auto

lemma loose_eq_JStr: "loose_eq x (JStr a) \<longleftrightarrow> x = JStr a"
  by (cases x) auto

lemma same_id_JStr: "same_id (JStr a) d \<longleftrightarrow> doc_id d = JStr a"
  by (simp add: same_id_def doc_id_def loose_eq_JStr)

section \<open>Connecting\<close>

text \<open>
  C2, as the code has it. With the connected flag set, \<^verbatim>\<open>connect()\<close> resolves
  its promise at once and registers no handler; the Transport's \<^verbatim>\<open>connect\<close> is
  called exactly when \<^verbatim>\<open>tryingToConnect\<close> is not set, because that flag, not the
  connected flag, guards the call; and after the call the flag is set.
\<close>

theorem connect_when_connected:
  "connected s \<Longrightarrow>
     snd (connect s) = Resolved \<and>
     ddpConnection (fst (connect s)) = ddpConnection s @ (if tryingToConnect s then [] else [Connect]) \<and>
     tryingToConnect (fst (connect s))"
  by (simp add: connect_def Let_def)

theorem connect_when_connected_witness:
  "connected (ex_client\<lparr>tryingToConnect := True\<rparr>) \<and>
   snd (connect (ex_client\<lparr>tryingToConnect := True\<rparr>)) = Resolved \<and>
   ddpConnection (fst (connect (ex_client\<lparr>tryingToConnect := True\<rparr>))) = [] \<and>
   tryingToConnect (fst (connect (ex_client\<lparr>tryingToConnect := True\<rparr>)))"
  using connect_when_connected[of "ex_client\<lparr>tryingToConnect := True\<rparr>"]
  by (simp add: ex_client_def)

text \<open>
  C2 as stated fails on the state every client is in after the \<^verbatim>\<open>connected\<close>
  event (\<^verbatim>\<open>connected = true\<close>, \<^verbatim>\<open>tryingToConnect = false\<close>): the promise resolves,
  and the Transport's \<^verbatim>\<open>connect\<close> is called all the same.
\<close>

theorem connect_contacts_transport_counterexample:
  "connected ex_client \<and> ddpConnection ex_client = [] \<and>
   snd (connect ex_client) = Resolved \<and> ddpConnection (fst (connect ex_client)) = [Connect]"
  by (simp add: connect_def ex_client_def Let_def)

section \<open>Subscribing\<close>

lemma sub_cases:
  "sub eq s pn a =
    (case findIndex (matches eq pn a) (subs s) of
       None \<Rightarrow> (s\<lparr>ddpConnection := ddpConnection s @ [Method ''foo'' [JNum 123, JNum 2] False, On ''result''],
                   subs := subs s @ [\<lparr>pubname = pn, args = normalize_args a, stopped = False\<rparr>]\<rparr>, length (subs s))
     | Some j \<Rightarrow> (s\<lparr>ddpConnection := ddpConnection s @ [Method ''foo'' [JNum 123, JNum 2] False, On ''result''],
                   subs := (if stopped (subs s ! j) then (subs s)[j := (subs s ! j)\<lparr>stopped := False\<rparr>] else subs s)\<rparr>, j))"
  unfolding matches_def[abs_def]
  by (simp add: sub_def apply_method_def Let_def isStopped_def start_def split: option.splits)

lemma sub_result:
  assumes r: "\<And>x. eq x x" and s: "sub eq s pn a = (s1, r1)"
  shows "r1 < length (subs s1) \<and> matches eq pn a (subs s1 ! r1) \<and> (\<forall>j<r1. \<not> matches eq pn a (subs s1 ! j))"
proof (cases "findIndex (matches eq pn a) (subs s)")
  case None
  then have no: "\<forall>x\<in>set (subs s). \<not> matches eq pn a x" by (simp add: findIndex_None_iff)
  from None s have s1: "subs s1 = subs s @ [\<lparr>pubname = pn, args = normalize_args a, stopped = False\<rparr>]"
    and r1: "r1 = length (subs s)" by (auto simp: sub_cases)
  show ?thesis using no r by (auto simp: s1 r1 matches_def nth_append)
next
  case (Some j)
  then have j: "j < length (subs s)" "matches eq pn a (subs s ! j)" "\<forall>k<j. \<not> matches eq pn a (subs s ! k)"
    by (auto simp: findIndex_Some_iff)
  from Some s have s1: "subs s1 = (if stopped (subs s ! j) then (subs s)[j := (subs s ! j)\<lparr>stopped := False\<rparr>] else subs s)"
    and r1: "r1 = j" by (auto simp: sub_cases)
  show ?thesis using j by (auto simp: s1 r1 matches_def)
qed

lemma matches_cong:
  assumes "map pubname xs = map pubname ys" "map args xs = map args ys" "j < length xs"
  shows "matches eq pn a (xs ! j) = matches eq pn a (ys ! j)"
proof -
  have l: "length xs = length ys" using assms(1) by (metis length_map)
  have "pubname (xs ! j) = pubname (ys ! j)" using assms l by (metis nth_map)
  moreover have "args (xs ! j) = args (ys ! j)" using assms l by (metis nth_map)
  ultimately show ?thesis by (simp add: matches_def)
qed

text \<open>
  C7. Let a first call \<^verbatim>\<open>sub(pn, a1)\<close> return the Subscription at position \<^verbatim>\<open>r1\<close>,
  and let a later call \<^verbatim>\<open>sub(pn', a2)\<close> be made in any state \<^verbatim>\<open>t\<close> whose \<^verbatim>\<open>subs\<close>
  holds the same Subscriptions (same names and arguments; they may have been
  stopped in between). Whenever the comparison \<^verbatim>\<open>isEqual\<close> is an equivalence, as
  deep equality is: if the names are equal and the argument sequences deep-equal,
  the later call returns the same object, creates none, and leaves it active;
  if the names or the arguments differ, it returns another object.
  \<^verbatim>\<open>subscribe(pn, ...as)\<close> is \<^verbatim>\<open>sub(pn, as)\<close>.
\<close>

theorem sub_interns:
  assumes r: "\<And>x. eq x x" and sy: "\<And>x y. eq x y \<Longrightarrow> eq y x"
    and tr: "\<And>x y z. eq x y \<Longrightarrow> eq y z \<Longrightarrow> eq x z"
    and first: "sub eq s pn a1 = (s1, r1)"
    and same1: "map pubname (subs t) = map pubname (subs s1)"
    and same2: "map args (subs t) = map args (subs s1)"
    and second: "sub eq t pn' a2 = (t2, r2)"
  shows "(pn' = pn \<and> eq (normalize_args a1) (normalize_args a2) \<longrightarrow>
            r2 = r1 \<and> length (subs t2) = length (subs t) \<and> \<not> isStopped (subs t2 ! r2)
            \<and> map pubname (subs t2) = map pubname (subs t) \<and> map args (subs t2) = map args (subs t))
       \<and> (pn' \<noteq> pn \<or> \<not> eq (normalize_args a1) (normalize_args a2) \<longrightarrow> r2 \<noteq> r1)
       \<and> subscribe eq t pn' as = sub eq t pn' (JArr as)"
proof -
  have len: "length (subs t) = length (subs s1)" using same1 by (metis length_map)
  from sub_result[OF r first]
  have r1: "r1 < length (subs s1)" and m1: "matches eq pn a1 (subs s1 ! r1)"
    and f1: "\<forall>j<r1. \<not> matches eq pn a1 (subs s1 ! j)" by auto
  have mt: "\<And>j p a. j < length (subs t) \<Longrightarrow> matches eq p a (subs t ! j) = matches eq p a (subs s1 ! j)"
    using matches_cong[OF same1 same2] by blast
  have part1: "r2 = r1 \<and> length (subs t2) = length (subs t) \<and> \<not> isStopped (subs t2 ! r2)
            \<and> map pubname (subs t2) = map pubname (subs t) \<and> map args (subs t2) = map args (subs t)"
    if pn: "pn' = pn" and e: "eq (normalize_args a1) (normalize_args a2)"
  proof -
    have sw: "\<And>sb. matches eq pn a2 sb = matches eq pn a1 sb"
      using e sy tr unfolding matches_def by blast
    have "findIndex (matches eq pn a2) (subs t) = Some r1"
      using r1 m1 f1 len mt by (simp add: findIndex_Some_iff sw)
    with second pn have t2: "subs t2 = (if stopped (subs t ! r1) then (subs t)[r1 := (subs t ! r1)\<lparr>stopped := False\<rparr>] else subs t)"
      and r2: "r2 = r1" by (auto simp: sub_cases)
    have "map pubname (subs t2) = map pubname (subs t)" "map args (subs t2) = map args (subs t)"
      using r1 len by (auto simp: t2 map_update list_update_same_conv)
    then show ?thesis using r1 len by (auto simp: t2 r2 isStopped_def)
  qed
  have part2: "r2 \<noteq> r1" if d: "pn' \<noteq> pn \<or> \<not> eq (normalize_args a1) (normalize_args a2)"
  proof
    assume eq12: "r2 = r1"
    from sub_result[OF r second] have "matches eq pn' a2 (subs t2 ! r2)" "r2 < length (subs t2)" by auto
    moreover have "r2 < length (subs t)" using eq12 r1 len by simp
    moreover have "matches eq pn' a2 (subs t2 ! r2) = matches eq pn' a2 (subs t ! r2)"
    proof (cases "findIndex (matches eq pn' a2) (subs t)")
      case None
      with second have "r2 = length (subs t)" by (auto simp: sub_cases)
      then show ?thesis using eq12 r1 len by simp
    next
      case (Some j)
      with second have "subs t2 = (if stopped (subs t ! j) then (subs t)[j := (subs t ! j)\<lparr>stopped := False\<rparr>] else subs t)"
        "r2 = j" by (auto simp: sub_cases)
      then show ?thesis using eq12 r1 len by (auto simp: matches_def)
    qed
    ultimately have "matches eq pn' a2 (subs s1 ! r1)" using mt eq12 by simp
    with m1 have "pn' = pn" "eq (normalize_args a1) (normalize_args a2)"
      using sy tr unfolding matches_def by blast+
    with d show False by simp
  qed
  have "subscribe eq t pn' as = sub eq t pn' (JArr as)" by (simp add: subscribe_def)
  with part1 part2 show ?thesis by blast
qed

theorem sub_interns_witness:
  "snd (sub (=) ex_client ''feed'' (JArr [JNum 1, JNum 2])) = 0 \<and>
   snd (sub (=) ex_feed_stopped ''feed'' (JArr [JNum 1, JNum 2])) = 0 \<and>
   length (subs (fst (sub (=) ex_feed_stopped ''feed'' (JArr [JNum 1, JNum 2])))) = 1 \<and>
   \<not> isStopped (subs (fst (sub (=) ex_feed_stopped ''feed'' (JArr [JNum 1, JNum 2]))) ! 0) \<and>
   snd (sub (=) ex_feed_stopped ''feed'' (JArr [JNum 1, JNum 3])) \<noteq> 0"
proof -
  let ?a = "JArr [JNum 1, JNum 2]" and ?b = "JArr [JNum 1, JNum 3]"
  define s1 where "s1 = fst (sub (=) ex_client ''feed'' ?a)"
  have first: "sub (=) ex_client ''feed'' ?a = (s1, 0)"
    by (simp add: s1_def sub_cases ex_client_def)
  have same1: "map pubname (subs ex_feed_stopped) = map pubname (subs s1)"
    and same2: "map args (subs ex_feed_stopped) = map args (subs s1)"
    by (simp_all add: s1_def sub_cases ex_client_def ex_feed_stopped_def normalize_args_def)
  have second: "\<And>a. sub (=) ex_feed_stopped ''feed'' a =
      (fst (sub (=) ex_feed_stopped ''feed'' a), snd (sub (=) ex_feed_stopped ''feed'' a))"
    by simp
  have len: "length (subs ex_feed_stopped) = 1" by (simp add: ex_feed_stopped_def ex_client_def)
  have ne: "normalize_args ?a \<noteq> normalize_args ?b"
    by (simp add: normalize_args_def)
  have A: "snd (sub (=) ex_feed_stopped ''feed'' ?a) = 0 \<and>
      length (subs (fst (sub (=) ex_feed_stopped ''feed'' ?a))) = length (subs ex_feed_stopped) \<and>
      \<not> isStopped (subs (fst (sub (=) ex_feed_stopped ''feed'' ?a)) ! snd (sub (=) ex_feed_stopped ''feed'' ?a))"
    using sub_interns[of "(=)", OF _ _ _ first same1 same2 second[of ?a]] by blast
  have B: "snd (sub (=) ex_feed_stopped ''feed'' ?b) \<noteq> 0"
    using sub_interns[of "(=)", OF _ _ _ first same1 same2 second[of ?b]] ne by blast
  from first have "snd (sub (=) ex_client ''feed'' ?a) = 0" by simp
  with A B len show ?thesis by auto
qed

text \<open>
  C10. Whatever \<^verbatim>\<open>subs\<close> holds, \<^verbatim>\<open>sub\<close> asks the Transport for the method \<^verbatim>\<open>foo\<close>
  with the arguments \<^verbatim>\<open>[123, 2]\<close> (at the end of the queue) and registers the
  \<^verbatim>\<open>result\<close> listener of \<^verbatim>\<open>apply\<close>, and asks nothing else of the Transport; the
  promise of that call is bound to \<^verbatim>\<open>k\<close> and never read.
\<close>

theorem sub_calls_foo:
  "ddpConnection (fst (sub eq s pn a)) =
     ddpConnection s @ [Method ''foo'' [JNum 123, JNum 2] False, On ''result'']"
  by (simp add: sub_cases split: option.splits)

section \<open>The store and the notifications after a dispatch\<close>

lemma coll_update: "coll (AList.update n ds cs) n' = (if n' = n then ds else coll cs n')"
  by (simp add: coll_def update_conv')

lemma coll_ensure: "coll (ensure_collection cs n) n' = coll cs n'"
  by (auto simp: ensure_collection_def hasOwnProperty_def coll_def update_conv')

lemma coll_evict:
  "coll (evict_stale cs m) n = (if n = m_collection m then evicted (m_id m) (coll cs n) else coll cs n)"
  by (auto simp: evict_stale_def evicted_def hasOwnProperty_def coll_def update_conv' split: option.splits)

lemma fst_dispatchAdded:
  "fst (dispatchAdded s m) =
     s\<lparr>collections := AList.update (m_collection m)
          (evicted (m_id m) (coll (collections s) (m_collection m)) @ [newObj_of m])
          (ensure_collection (evict_stale (collections s) m) (m_collection m))\<rparr>"
  by (simp add: dispatchAdded_def Let_def coll_ensure coll_evict)

lemma coll_dispatchAdded:
  "coll (collections (fst (dispatchAdded s m))) n =
     (if n = m_collection m then evicted (m_id m) (coll (collections s) n) @ [newObj_of m]
      else coll (collections s) n)"
  by (simp add: fst_dispatchAdded coll_update coll_ensure coll_evict)

lemma listeners_dispatchAdded: "onChangeFuncs (fst (dispatchAdded s m)) = onChangeFuncs s"
  by (simp add: fst_dispatchAdded)

lemma snd_dispatchAdded:
  "snd (dispatchAdded s m) =
     forEach (added_notify m (newObj_of m)
         (Suc (length (evicted (m_id m) (coll (collections s) (m_collection m)))))
         (evicted (m_id m) (coll (collections s) (m_collection m)) @ [newObj_of m]))
       (enumerate 0 (onChangeFuncs s))"
  by (simp add: dispatchAdded_def Let_def coll_update coll_ensure coll_evict)

text \<open>
  The loop over the listeners: a position is called with what the body gives for
  it if the loop reaches it, and not at all otherwise; the loop throws if and
  only if some listener ends it.
\<close>

lemma forEach_Inl: "body x = Inl e \<Longrightarrow> forEach body (x # xs) = ([], Some e)"
  by simp

lemma forEach_Inr:
  "body x = Inr ns \<Longrightarrow>
     forEach body (x # xs) = (ns @ fst (forEach body xs), snd (forEach body xs))"
  by (simp split: prod.splits)

lemma delivered_to_forEach:
  assumes tag: "\<And>k l ns. body (k, l) = Inr ns \<Longrightarrow> fst ` set ns \<subseteq> {k}"
    and ab: "\<And>k l. isl (body (k, l)) = ab l"
  shows "delivered_to j (fst (forEach body (enumerate n ls))) =
           (if n \<le> j \<and> j < n + length ls \<and> list_all (\<lambda>l. \<not> ab l) (take (j - n) ls)
            then (case body (j, ls ! (j - n)) of Inl e \<Rightarrow> [] | Inr ns \<Rightarrow> map snd ns)
            else [])"
proof (induction ls arbitrary: n)
  case Nil
  then show ?case by (auto simp: delivered_to_def)
next
  case (Cons l ls)
  have app: "\<And>a b. delivered_to j (a @ b) = delivered_to j a @ delivered_to j b"
    by (simp add: delivered_to_def)
  show ?case
  proof (cases "body (n, l)")
    case (Inl e)
    then have a: "ab l" using ab[of n l] by simp
    have "delivered_to j (fst (forEach body (enumerate n (l # ls)))) = []"
      using Inl by (simp add: delivered_to_def)
    moreover have "j = n \<Longrightarrow> (case body (j, (l # ls) ! (j - n)) of Inl e \<Rightarrow> [] | Inr ns \<Rightarrow> map snd ns) = []"
      using Inl by simp
    moreover have "n < j \<Longrightarrow> \<not> list_all (\<lambda>l. \<not> ab l) (take (j - n) (l # ls))"
      using a by (cases "j - n") auto
    ultimately show ?thesis by (cases "j = n") auto
  next
    case (Inr ns)
    then have na: "\<not> ab l" using ab[of n l] by auto
    have "\<forall>x\<in>set ns. fst x = n" using tag[OF Inr] by auto
    then have "\<forall>x\<in>set ns. (case x of (k, _) \<Rightarrow> k = j) = (j = n)" by auto
    then have "filter (\<lambda>(k, _). k = j) ns = (if j = n then ns else [])"
      by (auto simp: filter_empty_conv filter_id_conv)
    then have here: "delivered_to j ns = (if j = n then map snd ns else [])"
      by (simp add: delivered_to_def)
    have split: "delivered_to j (fst (forEach body (enumerate n (l # ls)))) =
        delivered_to j ns @ delivered_to j (fst (forEach body (enumerate (Suc n) ls)))"
      using forEach_Inr[of body "(n, l)" ns "enumerate (Suc n) ls", OF Inr]
      by (simp add: app del: forEach.simps)
    show ?thesis
    proof (cases "j = n")
      case True
      have hn: "delivered_to j ns = map snd ns" using here True by simp
      have rest: "delivered_to j (fst (forEach body (enumerate (Suc n) ls))) = []"
        using Cons.IH[of "Suc n"] True by simp
      have "(case body (j, (l # ls) ! (j - n)) of Inl e \<Rightarrow> [] | Inr ns \<Rightarrow> map snd ns) = map snd ns"
        using True Inr by simp
      then show ?thesis unfolding split hn rest using True by simp
    next
      case False
      show ?thesis
      proof (cases "n < j")
        case True
        then obtain d where d: "j - n = Suc d" "j - Suc n = d" by (cases "j - n") auto
        from True show ?thesis
          unfolding split using na False by (auto simp: here Cons.IH d)
      next
        case lt: False
        with False show ?thesis unfolding split by (simp add: here Cons.IH)
      qed
    qed
  qed
qed

lemma thrown_forEach:
  assumes ab: "\<And>k l. isl (body (k, l)) = ab l"
  shows "snd (forEach body (enumerate n ls)) = None \<longleftrightarrow> list_all (\<lambda>l. \<not> ab l) ls"
proof (induction ls arbitrary: n)
  case Nil
  then show ?case by simp
next
  case (Cons l ls)
  show ?case
  proof (cases "body (n, l)")
    case (Inl e)
    then have "ab l" using ab[of n l] by simp
    with Inl show ?thesis by simp
  next
    case (Inr ns)
    then have "\<not> ab l" using ab[of n l] by auto
    with forEach_Inr[of body "(n, l)" ns "enumerate (Suc n) ls", OF Inr] Cons.IH[of "Suc n"]
    show ?thesis by (simp del: forEach.simps)
  qed
qed

lemma added_notify_tag: "added_notify m d i arr (k, l) = Inr ns \<Longrightarrow> fst ` set ns \<subseteq> {k}"
  by (auto simp: added_notify_def Let_def split: own_filter.splits if_splits)

lemma changed_notify_tag: "changed_notify m p n i arr (k, l) = Inr ns \<Longrightarrow> fst ` set ns \<subseteq> {k}"
  by (auto simp: changed_notify_def Let_def split: own_filter.splits if_splits)

lemma removed_notify_tag: "removed_notify m d i arr (k, l) = Inr ns \<Longrightarrow> fst ` set ns \<subseteq> {k}"
  by (auto simp: removed_notify_def Let_def split: own_filter.splits if_splits)

lemma added_notify_isl: "isl (added_notify m d i arr (k, l)) = aborts (m_collection m) l"
  by (auto simp: added_notify_def aborts_def Let_def split: own_filter.splits)

lemma changed_notify_isl: "isl (changed_notify m p n i arr (k, l)) = aborts (m_collection m) l"
  by (auto simp: changed_notify_def aborts_def Let_def split: own_filter.splits)

lemma removed_notify_isl: "isl (removed_notify m d i arr (k, l)) = aborts (m_collection m) l"
  by (auto simp: removed_notify_def aborts_def Let_def split: own_filter.splits)

lemma delivered_to_added_notify:
  "delivered_to j (fst (forEach (added_notify m d i arr) (enumerate n ls))) =
     (if n \<le> j \<and> j < n + length ls \<and> list_all (\<lambda>l. \<not> aborts (m_collection m) l) (take (j - n) ls)
      then (case added_notify m d i arr (j, ls ! (j - n)) of Inl e \<Rightarrow> [] | Inr ns \<Rightarrow> map snd ns)
      else [])"
  by (rule delivered_to_forEach[where body = "added_notify m d i arr" and ab = "aborts (m_collection m)",
        OF added_notify_tag added_notify_isl])

lemma delivered_to_changed_notify:
  "delivered_to j (fst (forEach (changed_notify m p q i arr) (enumerate n ls))) =
     (if n \<le> j \<and> j < n + length ls \<and> list_all (\<lambda>l. \<not> aborts (m_collection m) l) (take (j - n) ls)
      then (case changed_notify m p q i arr (j, ls ! (j - n)) of Inl e \<Rightarrow> [] | Inr ns \<Rightarrow> map snd ns)
      else [])"
  by (rule delivered_to_forEach[where body = "changed_notify m p q i arr" and ab = "aborts (m_collection m)",
        OF changed_notify_tag changed_notify_isl])

lemma delivered_to_removed_notify:
  "delivered_to j (fst (forEach (removed_notify m d i arr) (enumerate n ls))) =
     (if n \<le> j \<and> j < n + length ls \<and> list_all (\<lambda>l. \<not> aborts (m_collection m) l) (take (j - n) ls)
      then (case removed_notify m d i arr (j, ls ! (j - n)) of Inl e \<Rightarrow> [] | Inr ns \<Rightarrow> map snd ns)
      else [])"
  by (rule delivered_to_forEach[where body = "removed_notify m d i arr" and ab = "aborts (m_collection m)",
        OF removed_notify_tag removed_notify_isl])

lemma thrown_added_notify:
  "snd (forEach (added_notify m d i arr) (enumerate n ls)) = None \<longleftrightarrow>
     list_all (\<lambda>l. \<not> aborts (m_collection m) l) ls"
  by (rule thrown_forEach[where body = "added_notify m d i arr" and ab = "aborts (m_collection m)",
        OF added_notify_isl])

lemma delivered_added:
  assumes "j < length (onChangeFuncs s)"
  shows "delivered_to j (calls_of (dispatchAdded s m)) =
     (if reached (m_collection m) (onChangeFuncs s) j
      then (case added_notify m (newObj_of m)
               (length (coll (collections (fst (dispatchAdded s m))) (m_collection m)))
               (coll (collections (fst (dispatchAdded s m))) (m_collection m))
               (j, onChangeFuncs s ! j) of
             Inl e \<Rightarrow> [] | Inr ns \<Rightarrow> map snd ns)
      else [])"
  using assms
  by (simp add: calls_of_def snd_dispatchAdded coll_dispatchAdded reached_def
      delivered_to_added_notify)

lemma thrown_dispatchAdded:
  "thrown_of (dispatchAdded s m) = None \<longleftrightarrow>
     list_all (\<lambda>l. \<not> aborts (m_collection m) l) (onChangeFuncs s)"
  by (simp add: thrown_of_def snd_dispatchAdded thrown_added_notify)

lemma dispatchChanged_found:
  assumes "findIndex (same_id (m_id m)) (coll (collections s) (m_collection m)) = Some i"
  shows "dispatchChanged s m =
    (s\<lparr>collections := AList.update (m_collection m)
          ((coll (collections s) (m_collection m))[i := changed_doc m (coll (collections s) (m_collection m) ! i)])
          (ensure_collection (collections s) (m_collection m))\<rparr>,
     forEach (changed_notify m (coll (collections s) (m_collection m) ! i)
                    (changed_doc m (coll (collections s) (m_collection m) ! i)) i
                    ((coll (collections s) (m_collection m))[i := changed_doc m (coll (collections s) (m_collection m) ! i)]))
              (enumerate 0 (onChangeFuncs s)))"
  using assms by (simp add: dispatchChanged_def Let_def coll_ensure coll_update fullCopy_def)

lemma dispatchAdded_ensured:
  assumes "findIndex (same_id (m_id m)) (coll (collections s) (m_collection m)) = None"
  shows "dispatchAdded (s\<lparr>collections := ensure_collection (collections s) (m_collection m)\<rparr>) m =
           dispatchAdded s m"
proof -
  let ?n = "m_collection m" and ?cs = "collections s"
  have e1: "evict_stale ?cs m = ?cs"
    using assms by (simp add: evict_stale_def)
  have e2: "evict_stale (ensure_collection ?cs ?n) m = ensure_collection ?cs ?n"
    using assms by (simp add: evict_stale_def coll_ensure)
  have e3: "ensure_collection (ensure_collection ?cs ?n) ?n = ensure_collection ?cs ?n"
    by (simp add: ensure_collection_def hasOwnProperty_def update_conv')
  show ?thesis
    by (simp add: dispatchAdded_def Let_def e1 e2 e3 coll_ensure)
qed

lemma dispatchChanged_absent:
  assumes "findIndex (same_id (m_id m)) (coll (collections s) (m_collection m)) = None"
  shows "dispatchChanged s m = dispatchAdded s m"
  using assms by (simp add: dispatchChanged_def Let_def coll_ensure dispatchAdded_ensured)

lemma coll_dispatchChanged_found:
  assumes "findIndex (same_id (m_id m)) (coll (collections s) (m_collection m)) = Some i"
  shows "coll (collections (fst (dispatchChanged s m))) n =
     (if n = m_collection m
      then (coll (collections s) n)[i := changed_doc m (coll (collections s) n ! i)]
      else coll (collections s) n)"
  by (simp add: dispatchChanged_found[OF assms] coll_update coll_ensure)

lemma dispatchRemoved_found:
  assumes "findIndex (same_id (m_id m)) (coll (collections s) (m_collection m)) = Some i"
  shows "dispatchRemoved s m =
    (s\<lparr>collections := AList.update (m_collection m)
          (splice_one i (coll (collections s) (m_collection m)))
          (ensure_collection (collections s) (m_collection m))\<rparr>,
     forEach (removed_notify m (coll (collections s) (m_collection m) ! i) i
                    (splice_one i (coll (collections s) (m_collection m))))
              (enumerate 0 (onChangeFuncs s)))"
  using assms by (simp add: dispatchRemoved_def Let_def coll_ensure coll_update)

lemma dispatchRemoved_absent:
  assumes "findIndex (same_id (m_id m)) (coll (collections s) (m_collection m)) = None"
  shows "dispatchRemoved s m = (s\<lparr>collections := ensure_collection (collections s) (m_collection m)\<rparr>, [], None)"
  using assms by (simp add: dispatchRemoved_def Let_def coll_ensure)

lemma coll_dispatchRemoved:
  "coll (collections (fst (dispatchRemoved s m))) n =
     (if n = m_collection m then evicted (m_id m) (coll (collections s) n) else coll (collections s) n)"
  by (cases "findIndex (same_id (m_id m)) (coll (collections s) (m_collection m))")
     (auto simp: dispatchRemoved_found dispatchRemoved_absent coll_update coll_ensure evicted_def)

lemma map_of_flag_keys: "map_of (flag_keys b ks fl) k = (if k \<in> set ks then Some b else map_of fl k)"
  by (induction ks arbitrary: fl) (auto simp: flag_keys_def update_conv')

lemma map_of_field_flags:
  "map_of (field_flags fs) k =
     (if k \<in> (case fs of None \<Rightarrow> {} | Some o' \<Rightarrow> fst ` set o') then Some 1 else None)"
  by (cases fs) (simp_all add: field_flags_def map_of_flag_keys)

lemma last_coll_dispatchAdded:
  "last (coll (collections (fst (dispatchAdded s m))) (m_collection m)) = newObj_of m"
  by (simp add: coll_dispatchAdded)

section \<open>Listeners with a predicate\<close>

lemma delivered_changed:
  assumes "findIndex (same_id (m_id m)) (coll (collections s) (m_collection m)) = Some i"
    and "j < length (onChangeFuncs s)"
  shows "delivered_to j (calls_of (dispatchChanged s m)) =
     (if reached (m_collection m) (onChangeFuncs s) j
      then (case changed_notify m (coll (collections s) (m_collection m) ! i)
               (changed_doc m (coll (collections s) (m_collection m) ! i)) i
               (coll (collections (fst (dispatchChanged s m))) (m_collection m))
               (j, onChangeFuncs s ! j) of
             Inl e \<Rightarrow> [] | Inr ns \<Rightarrow> map snd ns)
      else [])"
  using assms(2)
  by (simp add: calls_of_def dispatchChanged_found[OF assms(1)] coll_update reached_def
      delivered_to_changed_notify)

lemma delivered_removed:
  assumes "findIndex (same_id (m_id m)) (coll (collections s) (m_collection m)) = Some i"
    and "j < length (onChangeFuncs s)"
  shows "delivered_to j (calls_of (dispatchRemoved s m)) =
     (if reached (m_collection m) (onChangeFuncs s) j
      then (case removed_notify m (coll (collections s) (m_collection m) ! i) i
               (coll (collections (fst (dispatchRemoved s m))) (m_collection m))
               (j, onChangeFuncs s ! j) of
             Inl e \<Rightarrow> [] | Inr ns \<Rightarrow> map snd ns)
      else [])"
  using assms(2)
  by (simp add: calls_of_def dispatchRemoved_found[OF assms(1)] coll_update reached_def
      delivered_to_removed_notify)

text \<open>
  As long as the loop of a dispatcher reaches a listener with a predicate, the
  listener is called if and only if the predicate holds: of the new document for
  an added message; for a changed or removed message with a string id whose
  first stored document of that id is at index \<^verbatim>\<open>i\<close>, of that document before or
  after the change, or of that document, which is removed.
\<close>

lemma predicate_listener_reached:
  assumes j: "j < length (onChangeFuncs s)"
    and l: "onChangeFuncs s ! j = l" "l_collection l = m_collection m" "l_filter l = Predicate p"
    and r: "reached (m_collection m) (onChangeFuncs s) j"
  shows "(delivered_to j (calls_of (dispatchAdded s m)) \<noteq> []) =
           p (last (coll (collections (fst (dispatchAdded s m))) (m_collection m)))
             (length (coll (collections (fst (dispatchAdded s m))) (m_collection m)) - 1)
             (coll (collections (fst (dispatchAdded s m))) (m_collection m))"
    and "m_id m = JStr a \<Longrightarrow> i < length (coll (collections s) (m_collection m)) \<Longrightarrow>
         doc_id (coll (collections s) (m_collection m) ! i) = JStr a \<Longrightarrow>
         (\<forall>k<i. doc_id (coll (collections s) (m_collection m) ! k) \<noteq> JStr a) \<Longrightarrow>
         (delivered_to j (calls_of (dispatchChanged s m)) \<noteq> []) =
           (p (coll (collections s) (m_collection m) ! i) i
              (coll (collections (fst (dispatchChanged s m))) (m_collection m)) \<or>
            p (coll (collections (fst (dispatchChanged s m))) (m_collection m) ! i) i
              (coll (collections (fst (dispatchChanged s m))) (m_collection m)))"
    and "m_id m = JStr a \<Longrightarrow> i < length (coll (collections s) (m_collection m)) \<Longrightarrow>
         doc_id (coll (collections s) (m_collection m) ! i) = JStr a \<Longrightarrow>
         (\<forall>k<i. doc_id (coll (collections s) (m_collection m) ! k) \<noteq> JStr a) \<Longrightarrow>
         (delivered_to j (calls_of (dispatchRemoved s m)) \<noteq> []) =
           p (coll (collections s) (m_collection m) ! i) i
             (coll (collections (fst (dispatchRemoved s m))) (m_collection m))"
proof -
  show "(delivered_to j (calls_of (dispatchAdded s m)) \<noteq> []) =
           p (last (coll (collections (fst (dispatchAdded s m))) (m_collection m)))
             (length (coll (collections (fst (dispatchAdded s m))) (m_collection m)) - 1)
             (coll (collections (fst (dispatchAdded s m))) (m_collection m))"
    unfolding delivered_added[OF j] last_coll_dispatchAdded
    using l r by (simp add: added_notify_def fullCopy_def Let_def)
next
  assume "m_id m = JStr a" and i: "i < length (coll (collections s) (m_collection m))"
    and "doc_id (coll (collections s) (m_collection m) ! i) = JStr a"
    and "\<forall>k<i. doc_id (coll (collections s) (m_collection m) ! k) \<noteq> JStr a"
  then have f: "findIndex (same_id (m_id m)) (coll (collections s) (m_collection m)) = Some i"
    by (simp add: findIndex_Some_iff same_id_JStr)
  have nx: "coll (collections (fst (dispatchChanged s m))) (m_collection m) ! i =
      changed_doc m (coll (collections s) (m_collection m) ! i)"
    using i by (simp add: coll_dispatchChanged_found[OF f])
  show "(delivered_to j (calls_of (dispatchChanged s m)) \<noteq> []) =
           (p (coll (collections s) (m_collection m) ! i) i
              (coll (collections (fst (dispatchChanged s m))) (m_collection m)) \<or>
            p (coll (collections (fst (dispatchChanged s m))) (m_collection m) ! i) i
              (coll (collections (fst (dispatchChanged s m))) (m_collection m)))"
    unfolding delivered_changed[OF f j] nx
    using l r by (simp add: changed_notify_def fullCopy_def Let_def)
next
  assume "m_id m = JStr a" and i: "i < length (coll (collections s) (m_collection m))"
    and "doc_id (coll (collections s) (m_collection m) ! i) = JStr a"
    and "\<forall>k<i. doc_id (coll (collections s) (m_collection m) ! k) \<noteq> JStr a"
  then have f: "findIndex (same_id (m_id m)) (coll (collections s) (m_collection m)) = Some i"
    by (simp add: findIndex_Some_iff same_id_JStr)
  show "(delivered_to j (calls_of (dispatchRemoved s m)) \<noteq> []) =
           p (coll (collections s) (m_collection m) ! i) i
             (coll (collections (fst (dispatchRemoved s m))) (m_collection m))"
    unfolding delivered_removed[OF f j]
    using l r by (simp add: removed_notify_def fullCopy_def Let_def)
qed

text \<open>
  C6 fails on the code. On the collection \<^verbatim>\<open>tasks\<close>, \<^verbatim>\<open>onChange(f)\<close> is called
  without a predicate and then \<^verbatim>\<open>onChange(g, p)\<close> with the predicate
  \<^verbatim>\<open>p = d => d.v == 3\<close>. The first listener object has an own property \<^verbatim>\<open>filter\<close>
  that holds \<^verbatim>\<open>undefined\<close>, so the dispatchers take it for a predicate and call it.
  An added message for the new task \<^verbatim>\<open>{_id: "b", v: 3}\<close> then throws a TypeError at
  the first listener, and \<^verbatim>\<open>g\<close> is not called although \<^verbatim>\<open>p\<close> is true of the new
  document; a changed message that sets \<^verbatim>\<open>v\<close> of the stored task \<^verbatim>\<open>a\<close> to 3 does
  the same, although \<^verbatim>\<open>p\<close> is true of the document after the change.
\<close>

theorem predicate_listener_not_invoked:
  "onChangeFuncs ex_tasks_plain_first =
     [\<lparr>l_collection = ''tasks'', l_filter = NotCallable\<rparr>,
      \<lparr>l_collection = ''tasks'', l_filter = Predicate v_is_3\<rparr>] \<and>
   coll (collections (fst (dispatchAdded ex_tasks_plain_first ex_added_b))) ''tasks'' =
     [[(''_id'', JStr ''a''), (''v'', JNum 1)], [(''_id'', JStr ''b''), (''v'', JNum 3)]] \<and>
   v_is_3 [(''_id'', JStr ''b''), (''v'', JNum 3)] 1
     (coll (collections (fst (dispatchAdded ex_tasks_plain_first ex_added_b))) ''tasks'') \<and>
   delivered_to 1 (calls_of (dispatchAdded ex_tasks_plain_first ex_added_b)) = [] \<and>
   thrown_of (dispatchAdded ex_tasks_plain_first ex_added_b) = Some TypeError \<and>
   coll (collections (fst (dispatchChanged ex_tasks_plain_first ex_changed_a))) ''tasks'' =
     [[(''_id'', JStr ''a''), (''v'', JNum 3)]] \<and>
   v_is_3 [(''_id'', JStr ''a''), (''v'', JNum 3)] 0
     (coll (collections (fst (dispatchChanged ex_tasks_plain_first ex_changed_a))) ''tasks'') \<and>
   delivered_to 1 (calls_of (dispatchChanged ex_tasks_plain_first ex_changed_a)) = [] \<and>
   thrown_of (dispatchChanged ex_tasks_plain_first ex_changed_a) = Some TypeError"
  by (simp add: ex_tasks_plain_first_def onChange_def onChange_obj_def ex_col_tasks_def
      ex_task_a_def ex_client_def ex_added_b_def ex_changed_a_def
      dispatchAdded_def dispatchChanged_def evict_stale_def ensure_collection_def
      hasOwnProperty_def coll_def same_id_def get_prop_def newObj_of_def Object_assign_def
      changed_doc_def added_notify_def changed_notify_def fullCopy_def
      calls_of_def thrown_of_def delivered_to_def v_is_3_def Let_def)

text \<open>
  C8. Let the listener at position \<^verbatim>\<open>j\<close> be registered on the collection of an
  added message with a predicate that accepts the new document (with its index
  and the collection array after the insertion). Then all that \<^verbatim>\<open>dispatchAdded\<close>
  delivers to it is the one payload \<^verbatim>\<open>{prev: false, next: copy, fields, fieldsChanged: copy, fieldsRemoved: []}\<close>,
  handed over bare and not inside the envelope \<^verbatim>\<open>{changed, added, removed}\<close> of the
  added shape; \<^verbatim>\<open>copy\<close> is the new document, the last of the collection; and
  \<^verbatim>\<open>fields\<close> flags exactly the field names of the message with 1. The payload is
  delivered if the loop reaches the listener; when a listener before it on that
  collection has a \<^verbatim>\<open>filter\<close> that is not callable, the dispatcher throws there
  and nothing is delivered to this one.
\<close>

theorem added_predicate_payload_shape:
  assumes j: "j < length (onChangeFuncs s)"
    and l: "onChangeFuncs s ! j = l" "l_collection l = m_collection m" "l_filter l = Predicate p"
    and acc: "p (newObj_of m)
                (length (coll (collections (fst (dispatchAdded s m))) (m_collection m)) - 1)
                (coll (collections (fst (dispatchAdded s m))) (m_collection m))"
  shows "set (delivered_to j (calls_of (dispatchAdded s m))) \<subseteq>
           {Bare \<lparr>p_prev = None, p_next = Some (newObj_of m),
                  p_fields = Some (field_flags (m_fields m)),
                  p_fieldsChanged = Some (newObj_of m),
                  p_fieldsRemoved = Some [], p_predicatePassed = None\<rparr>}
       \<and> delivered_to j (calls_of (dispatchAdded s m)) =
           (if reached (m_collection m) (onChangeFuncs s) j
            then [Bare \<lparr>p_prev = None, p_next = Some (newObj_of m),
                       p_fields = Some (field_flags (m_fields m)),
                       p_fieldsChanged = Some (newObj_of m),
                       p_fieldsRemoved = Some [], p_predicatePassed = None\<rparr>]
            else [])
       \<and> last (coll (collections (fst (dispatchAdded s m))) (m_collection m)) = newObj_of m
       \<and> (\<forall>k. map_of (field_flags (m_fields m)) k =
               (if k \<in> (case m_fields m of None \<Rightarrow> {} | Some fs \<Rightarrow> fst ` set fs) then Some 1 else None))"
proof -
  have "delivered_to j (calls_of (dispatchAdded s m)) =
           (if reached (m_collection m) (onChangeFuncs s) j
            then [Bare \<lparr>p_prev = None, p_next = Some (newObj_of m),
                       p_fields = Some (field_flags (m_fields m)),
                       p_fieldsChanged = Some (newObj_of m),
                       p_fieldsRemoved = Some [], p_predicatePassed = None\<rparr>]
            else [])"
    unfolding delivered_added[OF j]
    using l acc by (simp add: added_notify_def fullCopy_def Let_def)
  then show ?thesis
    by (auto simp: last_coll_dispatchAdded map_of_field_flags)
qed

theorem added_predicate_payload_shape_witness:
  "onChangeFuncs ex_tasks ! 0 = \<lparr>l_collection = ''tasks'', l_filter = Predicate v_is_3\<rparr> \<and>
   coll (collections (fst (dispatchAdded ex_tasks ex_added_b))) ''tasks'' =
     [[(''_id'', JStr ''a''), (''v'', JNum 1)], [(''_id'', JStr ''b''), (''v'', JNum 3)]] \<and>
   delivered_to 0 (calls_of (dispatchAdded ex_tasks ex_added_b)) =
     [Bare \<lparr>p_prev = None, p_next = Some [(''_id'', JStr ''b''), (''v'', JNum 3)],
            p_fields = Some [(''v'', 1)],
            p_fieldsChanged = Some [(''_id'', JStr ''b''), (''v'', JNum 3)],
            p_fieldsRemoved = Some [], p_predicatePassed = None\<rparr>]"
proof -
  have fs: "onChangeFuncs ex_tasks =
      [\<lparr>l_collection = ''tasks'', l_filter = Predicate v_is_3\<rparr>,
       \<lparr>l_collection = ''tasks'', l_filter = NotCallable\<rparr>]"
    by (simp add: ex_tasks_def onChange_def onChange_obj_def ex_col_tasks_def ex_task_a_def
        ex_client_def)
  have st: "coll (collections ex_tasks) ''tasks'' = [[(''_id'', JStr ''a''), (''v'', JNum 1)]]"
    by (simp add: ex_tasks_def onChange_def ex_task_a_def ex_client_def coll_def)
  have new: "newObj_of ex_added_b = [(''_id'', JStr ''b''), (''v'', JNum 3)]"
    by (simp add: newObj_of_def ex_added_b_def Object_assign_def)
  have c: "coll (collections (fst (dispatchAdded ex_tasks ex_added_b))) ''tasks'' =
      [[(''_id'', JStr ''a''), (''v'', JNum 1)], [(''_id'', JStr ''b''), (''v'', JNum 3)]]"
    unfolding coll_dispatchAdded
    by (simp add: st newObj_of_def Object_assign_def ex_added_b_def evicted_def same_id_def
        get_prop_def)
  have fl: "field_flags (m_fields ex_added_b) = [(''v'', 1)]"
    by (simp add: field_flags_def flag_keys_def ex_added_b_def)
  have r: "reached (m_collection ex_added_b) (onChangeFuncs ex_tasks) 0"
    by (simp add: reached_def)
  have mc: "m_collection ex_added_b = ''tasks''" by (simp add: ex_added_b_def)
  have acc: "v_is_3 (newObj_of ex_added_b)
      (length (coll (collections (fst (dispatchAdded ex_tasks ex_added_b))) (m_collection ex_added_b)) - 1)
      (coll (collections (fst (dispatchAdded ex_tasks ex_added_b))) (m_collection ex_added_b))"
    by (simp add: new v_is_3_def get_prop_def)
  from added_predicate_payload_shape[of 0 ex_tasks "\<lparr>l_collection = ''tasks'', l_filter = Predicate v_is_3\<rparr>"
      ex_added_b v_is_3, OF _ _ _ _ acc] r
  show ?thesis by (simp add: fs c new fl mc)
qed

section \<open>Changed messages\<close>

lemma map_of_Object_assign:
  "is_object source \<Longrightarrow>
   map_of (Object_assign target source) k =
     (case map_of source k of None \<Rightarrow> map_of target k | Some v \<Rightarrow> Some v)"
proof (induction source arbitrary: target)
  case Nil
  then show ?case by (simp add: Object_assign_def)
next
  case (Cons kv source)
  obtain k0 v0 where kv: "kv = (k0, v0)" by (cases kv)
  from Cons.prems have d: "is_object source" and n: "k0 \<notin> fst ` set source"
    by (auto simp: is_object_def kv)
  have step: "Object_assign target (kv # source) = Object_assign (AList.update k0 v0 target) source"
    by (simp add: Object_assign_def kv)
  from n have "map_of source k0 = None" by (simp add: map_of_eq_None_iff)
  then show ?case
    unfolding step Cons.IH[OF d] by (auto simp: kv update_conv' split: option.splits)
qed

lemma map_of_delete_keys:
  "map_of (delete_keys ks obj) k = (if k \<in> set ks then None else map_of obj k)"
  by (induction ks arbitrary: obj) (auto simp: delete_keys_def delete_conv')

lemma map_of_changed_doc:
  assumes "fields_is_object m"
  shows "map_of (changed_doc m doc) k =
     (if k \<in> cleared_keys m then None
      else case field_value m k of None \<Rightarrow> map_of doc k | Some v \<Rightarrow> Some v)"
  using assms
  by (auto simp: changed_doc_def cleared_keys_def field_value_def fields_is_object_def
      map_of_delete_keys map_of_Object_assign Let_def split: option.splits)

lemma keys_dispatchChanged_found:
  assumes found: "findIndex (same_id (m_id m)) (coll (collections s) (m_collection m)) = Some i"
  shows "map fst (collections (fst (dispatchChanged s m))) = map fst (collections s)"
proof -
  from found have "coll (collections s) (m_collection m) \<noteq> []"
    by (auto simp: findIndex_Some_iff)
  then have own: "map_of (collections s) (m_collection m) \<noteq> None"
    by (auto simp: coll_def split: option.splits)
  then have "m_collection m \<in> fst ` set (collections s)"
    by (simp add: map_of_eq_None_iff)
  moreover from own have "ensure_collection (collections s) (m_collection m) = collections s"
    by (simp add: ensure_collection_def hasOwnProperty_def)
  ultimately show ?thesis
    by (simp add: dispatchChanged_found[OF found] update_keys)
qed

text \<open>
  C5, as the code has it. Let the id of a changed message be found at index
  \<^verbatim>\<open>i\<close> of its collection. Afterwards every name in \<^verbatim>\<open>cleared\<close> is absent from that
  document; every name in \<^verbatim>\<open>fields\<close> that is not in \<^verbatim>\<open>cleared\<close> has its new value
  (the fields are merged first, the cleared names deleted afterwards); every
  other key keeps its value, so the identifier \<^verbatim>\<open>_id\<close> is unchanged unless a payload
  names it. The other documents of the collection, the other collections, the
  collection names and the rest of the client are unchanged.
\<close>

theorem changed_touches_named_keys_only:
  assumes found: "findIndex (same_id (m_id m)) (coll (collections s) (m_collection m)) = Some i"
    and obj: "fields_is_object m"
  shows "(let docs = coll (collections s) (m_collection m);
              s' = fst (dispatchChanged s m);
              docs' = coll (collections s') (m_collection m)
          in length docs' = length docs
           \<and> (\<forall>k. map_of (docs' ! i) k =
                  (if k \<in> cleared_keys m then None
                   else case field_value m k of None \<Rightarrow> map_of (docs ! i) k | Some v \<Rightarrow> Some v))
           \<and> (''_id'' \<notin> cleared_keys m \<and> field_value m ''_id'' = None \<longrightarrow>
                  get_prop (docs' ! i) ''_id'' = get_prop (docs ! i) ''_id'')
           \<and> (\<forall>j. j \<noteq> i \<longrightarrow> docs' ! j = docs ! j)
           \<and> (\<forall>n. n \<noteq> m_collection m \<longrightarrow> coll (collections s') n = coll (collections s) n)
           \<and> map fst (collections s') = map fst (collections s)
           \<and> s' = s\<lparr>collections := collections s'\<rparr>)"
proof -
  let ?docs = "coll (collections s) (m_collection m)"
  let ?s' = "fst (dispatchChanged s m)"
  let ?docs' = "coll (collections ?s') (m_collection m)"
  from found have i: "i < length ?docs" by (simp add: findIndex_Some_iff)
  have docs': "?docs' = ?docs[i := changed_doc m (?docs ! i)]"
    by (simp add: coll_dispatchChanged_found[OF found])
  have 1: "length ?docs' = length ?docs" by (simp add: docs')
  have d: "?docs' ! i = changed_doc m (?docs ! i)" using i by (simp add: docs')
  have 2: "map_of (?docs' ! i) k =
        (if k \<in> cleared_keys m then None
         else case field_value m k of None \<Rightarrow> map_of (?docs ! i) k | Some v \<Rightarrow> Some v)" for k
    unfolding d by (rule map_of_changed_doc[OF obj])
  have 3: "get_prop (?docs' ! i) ''_id'' = get_prop (?docs ! i) ''_id''"
    if "''_id'' \<notin> cleared_keys m \<and> field_value m ''_id'' = None"
    using that 2[of "''_id''"] by (simp add: get_prop_def)
  have 4: "?docs' ! j = ?docs ! j" if "j \<noteq> i" for j using that by (simp add: docs')
  have 5: "coll (collections ?s') n = coll (collections s) n" if "n \<noteq> m_collection m" for n
    using that by (simp add: coll_dispatchChanged_found[OF found])
  have 6: "map fst (collections ?s') = map fst (collections s)"
    by (rule keys_dispatchChanged_found[OF found])
  have 7: "?s' = s\<lparr>collections := collections ?s'\<rparr>"
    by (simp add: dispatchChanged_found[OF found])
  show ?thesis unfolding Let_def using 1 2 3 4 5 6 7 by blast
qed

theorem changed_touches_named_keys_only_witness:
  "get_prop (coll (collections (fst (dispatchChanged ex_doc_axy ex_changed_xy))) ''tasks'' ! 0) ''x'' = JNum 2 \<and>
   get_prop (coll (collections (fst (dispatchChanged ex_doc_axy ex_changed_xy))) ''tasks'' ! 0) ''y'' = JUndefined \<and>
   get_prop (coll (collections (fst (dispatchChanged ex_doc_axy ex_changed_xy))) ''tasks'' ! 0) ''_id'' = JStr ''a'' \<and>
   length (coll (collections (fst (dispatchChanged ex_doc_axy ex_changed_xy))) ''tasks'') = 1"
proof -
  have cs: "coll (collections ex_doc_axy) ''tasks'' = [[(''_id'', JStr ''a''), (''x'', JNum 1), (''y'', JNum 7)]]"
    by (simp add: ex_doc_axy_def ex_client_def coll_def)
  have n: "m_collection ex_changed_xy = ''tasks''" and i: "m_id ex_changed_xy = JStr ''a''"
    by (simp_all add: ex_changed_xy_def)
  have found: "findIndex (same_id (m_id ex_changed_xy)) (coll (collections ex_doc_axy) (m_collection ex_changed_xy)) = Some 0"
    by (simp add: n i cs same_id_def get_prop_def)
  have obj: "fields_is_object ex_changed_xy"
    by (simp add: fields_is_object_def is_object_def ex_changed_xy_def)
  have ck: "cleared_keys ex_changed_xy = {''y''}"
    and fv: "\<And>k. field_value ex_changed_xy k = (if k = ''x'' then Some (JNum 2) else None)"
    by (simp_all add: cleared_keys_def field_value_def ex_changed_xy_def)
  from changed_touches_named_keys_only[OF found obj] show ?thesis
    by (simp add: Let_def n cs ck fv get_prop_def)
qed

text \<open>
  C5 as stated fails where \<^verbatim>\<open>fields\<close> and \<^verbatim>\<open>cleared\<close> name the same key or name
  \<^verbatim>\<open>_id\<close>: here \<^verbatim>\<open>fields\<close> gives \<^verbatim>\<open>x\<close> the value 2, yet \<^verbatim>\<open>x\<close> is absent
  afterwards, and the identifier \<^verbatim>\<open>"a"\<close> of the document has become \<^verbatim>\<open>"b"\<close>.
\<close>

theorem changed_overlap_counterexample:
  "findIndex (same_id (m_id ex_changed_overlap))
      (coll (collections ex_doc_axy) (m_collection ex_changed_overlap)) = Some 0 \<and>
   field_value ex_changed_overlap ''x'' = Some (JNum 2) \<and>
   get_prop (coll (collections (fst (dispatchChanged ex_doc_axy ex_changed_overlap))) ''tasks'' ! 0) ''x'' = JUndefined \<and>
   get_prop (coll (collections ex_doc_axy) ''tasks'' ! 0) ''_id'' = JStr ''a'' \<and>
   get_prop (coll (collections (fst (dispatchChanged ex_doc_axy ex_changed_overlap))) ''tasks'' ! 0) ''_id'' = JStr ''b''"
  by (simp add: dispatchChanged_def ex_doc_axy_def ex_client_def ex_changed_overlap_def Let_def
      ensure_collection_def hasOwnProperty_def coll_def same_id_def get_prop_def field_value_def
      changed_doc_def Object_assign_def delete_keys_def fullCopy_def)

section \<open>Queries: filter, sort, skip, limit\<close>

text \<open>
  The model of \<^verbatim>\<open>arr.sort(cmp)\<close> keeps the elements, and orders them whenever the
  comparator is a total preorder.
\<close>

lemma set_insert_by: "set (insert_by cmp x xs) = insert x (set xs)"
  by (induction xs) auto

lemma length_insert_by: "length (insert_by cmp x xs) = Suc (length xs)"
  by (induction xs) auto

lemma set_array_sort: "set (array_sort cmp xs) = set xs"
  by (induction xs) (auto simp: array_sort_def set_insert_by)

lemma length_array_sort: "length (array_sort cmp xs) = length xs"
  by (induction xs) (auto simp: array_sort_def length_insert_by)

lemma sorted_insert_by:
  assumes tot: "\<And>a b. cmp a b \<le> 0 \<or> cmp b a \<le> 0"
    and tr: "\<And>a b c. cmp a b \<le> 0 \<Longrightarrow> cmp b c \<le> 0 \<Longrightarrow> cmp a c \<le> 0"
  shows "sorted_wrt (\<lambda>a b. cmp a b \<le> 0) xs \<Longrightarrow> sorted_wrt (\<lambda>a b. cmp a b \<le> 0) (insert_by cmp x xs)"
proof (induction xs)
  case Nil
  then show ?case by simp
next
  case (Cons y ys)
  show ?case
  proof (cases "cmp x y \<le> 0")
    case True
    with Cons.prems tr show ?thesis by auto
  next
    case False
    with tot[of x y] have "cmp y x \<le> 0" by simp
    with False Cons show ?thesis by (auto simp: set_insert_by)
  qed
qed

lemma sorted_array_sort:
  assumes tot: "\<And>a b. cmp a b \<le> 0 \<or> cmp b a \<le> 0"
    and tr: "\<And>a b c. cmp a b \<le> 0 \<Longrightarrow> cmp b c \<le> 0 \<Longrightarrow> cmp a c \<le> 0"
  shows "sorted_wrt (\<lambda>a b. cmp a b \<le> 0) (array_sort cmp xs)"
proof (induction xs)
  case Nil
  then show ?case by (simp add: array_sort_def)
next
  case (Cons x xs)
  have "array_sort cmp (x # xs) = insert_by cmp x (array_sort cmp xs)"
    by (simp add: array_sort_def)
  with sorted_insert_by[OF tot tr Cons.IH] show ?case by simp
qed

lemma fetch_steps:
  "fetch server col (Some st) =
     if_given (s_limit st) splice_from
       (if_given (s_skip st) splice_front
         (if_given (s_sort st) array_sort
           (if_given (c_filter col) array_filter
             (fullCopy (coll (collections server) (c_name col))))))"
  by (simp add: fetch_def if_given_def coll_def fullCopy_def Let_def split: option.splits)

lemma fetch_no_settings:
  "fetch server col None =
     if_given (c_filter col) array_filter (fullCopy (coll (collections server) (c_name col)))"
  by (simp add: fetch_def if_given_def coll_def fullCopy_def Let_def split: option.splits)

lemma if_given_simps: "if_given None step xs = xs" "if_given (Some v) step xs = step v xs"
  by (simp_all add: if_given_def)

lemma splice_front_discards: "splice_front = discard_first"
  by (intro ext) (simp add: splice_front_def discard_first_def)

lemma splice_from_count: "0 \<le> k \<Longrightarrow> splice_from (Fin k) xs = truncate_to (Fin k) xs"
  by (simp add: splice_from_def truncate_to_def)

lemma splice_from_negative:
  "k < 0 \<Longrightarrow> splice_from (Fin k) xs = take (length xs - nat (- k)) xs"
  by (auto simp: splice_from_def intro!: arg_cong2[where f=take])

lemma fetch_of_example:
  "fetch ex_three ex_c (Some ex_sort_skip_limit) = [[(''id'', JNum 3), (''v'', JNum 2)]]"
  by (simp add: fetch_steps if_given_def ex_three_def ex_client_def ex_c_def ex_sort_skip_limit_def
      coll_def fullCopy_def array_sort_def ascending_by_v_def number_of_def get_prop_def
      splice_front_def splice_from_def)

text \<open>
  C9, as the code has it. When the limit counts elements (it is absent,
  \<^verbatim>\<open>Infinity\<close> or not negative), \<^verbatim>\<open>fetch\<close> with settings is the query of the spec:
  over a deep copy of the stored sequence, filter, then sort, then drop the first
  \<^verbatim>\<open>skip\<close> elements, then truncate to \<^verbatim>\<open>limit\<close> elements. A negative limit
  \<^verbatim>\<open>-k\<close> removes the last \<^verbatim>\<open>k\<close> elements of what the first three steps leave.
  Without settings only the filter is applied. On the documents
  \<^verbatim>\<open>[{id:1,v:3},{id:2,v:1},{id:3,v:2}]\<close>, sorting ascending by \<^verbatim>\<open>v\<close> with skip 1 and
  limit 1 returns \<^verbatim>\<open>[{id:3,v:2}]\<close>.
\<close>

theorem fetch_pipeline:
  "(limit_is_count st \<longrightarrow> fetch server col (Some st) = fetch_spec server col st)
   \<and> (\<forall>k. s_limit st = Some (Fin k) \<and> k < 0 \<longrightarrow>
        fetch server col (Some st) =
          (let xs = fetch server col (Some (st\<lparr>s_limit := None\<rparr>)) in take (length xs - nat (- k)) xs))
   \<and> fetch server col None =
        if_given (c_filter col) array_filter (fullCopy (coll (collections server) (c_name col)))
   \<and> fetch ex_three ex_c (Some ex_sort_skip_limit) = [[(''id'', JNum 3), (''v'', JNum 2)]]"
proof -
  have a: "fetch server col (Some st) = fetch_spec server col st" if "limit_is_count st"
  proof (cases "s_limit st")
    case None
    then show ?thesis by (simp add: fetch_steps fetch_spec_def if_given_simps splice_front_discards)
  next
    case (Some n)
    show ?thesis
    proof (cases n)
      case (Fin k)
      with Some that have "0 \<le> k" by (simp add: limit_is_count_def)
      then show ?thesis using Some Fin
        by (simp add: fetch_steps fetch_spec_def if_given_simps splice_from_count splice_front_discards)
    next
      case Infinity
      with Some show ?thesis
        by (simp add: fetch_steps fetch_spec_def if_given_simps splice_from_def truncate_to_def
            splice_front_discards)
    qed
  qed
  have b: "fetch server col (Some st) =
          (let xs = fetch server col (Some (st\<lparr>s_limit := None\<rparr>)) in take (length xs - nat (- k)) xs)"
    if "s_limit st = Some (Fin k) \<and> k < 0" for k
    using that by (simp add: fetch_steps if_given_simps splice_from_negative Let_def)
  from a b fetch_no_settings fetch_of_example show ?thesis by blast
qed

theorem fetch_pipeline_witness:
  "fetch ex_three ex_c (Some ex_sort_skip_limit) =
     truncate_to (Fin 1) (discard_first (Fin 1) (array_sort ascending_by_v (coll (collections ex_three) ''c'')))
   \<and> length (fetch ex_three ex_c (Some ex_limit_minus_one)) = 2"
proof -
  have 1: "limit_is_count ex_sort_skip_limit"
    by (simp add: limit_is_count_def ex_sort_skip_limit_def)
  have 2: "s_limit ex_limit_minus_one = Some (Fin (- 1)) \<and> (- 1 :: int) < 0"
    by (simp add: ex_limit_minus_one_def)
  have 3: "fetch ex_three ex_c (Some (ex_limit_minus_one\<lparr>s_limit := None\<rparr>)) = coll (collections ex_three) ''c''"
    by (simp add: fetch_steps if_given_def ex_limit_minus_one_def ex_c_def fullCopy_def)
  have 4: "length (coll (collections ex_three) ''c'') = 3"
    by (simp add: ex_three_def ex_client_def coll_def)
  have 5: "fetch_spec ex_three ex_c ex_sort_skip_limit =
     truncate_to (Fin 1) (discard_first (Fin 1) (array_sort ascending_by_v (coll (collections ex_three) ''c'')))"
    by (simp add: fetch_spec_def if_given_def ex_sort_skip_limit_def ex_c_def fullCopy_def)
  from fetch_pipeline[of ex_sort_skip_limit ex_three ex_c] 1
  have A: "fetch ex_three ex_c (Some ex_sort_skip_limit) = fetch_spec ex_three ex_c ex_sort_skip_limit"
    by blast
  from fetch_pipeline[of ex_limit_minus_one ex_three ex_c] 2
  have "fetch ex_three ex_c (Some ex_limit_minus_one) =
      (let xs = fetch ex_three ex_c (Some (ex_limit_minus_one\<lparr>s_limit := None\<rparr>)) in take (length xs - nat (- (- 1))) xs)"
    by blast
  then have B: "length (fetch ex_three ex_c (Some ex_limit_minus_one)) = 2"
    by (simp add: 3 4 Let_def)
  from A B show ?thesis by (simp add: 5)
qed

text \<open>
  C9 as stated fails for a negative limit: with the limit -1 \<^verbatim>\<open>splice(limit)\<close>
  counts from the end and two of the three documents are returned, where a
  truncation to \<^verbatim>\<open>limit\<close> elements leaves none.
\<close>

theorem fetch_negative_limit_counterexample:
  "s_limit ex_limit_minus_one = Some (Fin (- 1)) \<and>
   fetch ex_three ex_c (Some ex_limit_minus_one) =
     [[(''id'', JNum 1), (''v'', JNum 3)], [(''id'', JNum 2), (''v'', JNum 1)]] \<and>
   fetch_spec ex_three ex_c ex_limit_minus_one = []"
  by (simp add: fetch_def fetch_spec_def if_given_def truncate_to_def splice_from_def fullCopy_def
      ex_limit_minus_one_def ex_three_def ex_client_def ex_c_def coll_def Let_def)

section \<open>Identifiers stay unique\<close>

lemma store_ok_iff: "store_ok cs \<longleftrightarrow> (\<forall>n. unique_ids (coll cs n) \<and> string_ids (coll cs n))"
proof
  assume ok: "store_ok cs"
  show "\<forall>n. unique_ids (coll cs n) \<and> string_ids (coll cs n)"
  proof
    fix n
    show "unique_ids (coll cs n) \<and> string_ids (coll cs n)"
    proof (cases "n \<in> set (Object_keys cs)")
      case True
      with ok show ?thesis by (simp add: store_ok_def list_all_iff)
    next
      case False
      then have "map_of cs n = None" by (simp add: Object_keys_def map_of_eq_None_iff)
      then show ?thesis by (simp add: coll_def unique_ids_def string_ids_def)
    qed
  qed
next
  assume "\<forall>n. unique_ids (coll cs n) \<and> string_ids (coll cs n)"
  then show "store_ok cs" by (simp add: store_ok_def list_all_iff)
qed

lemma splice_one_sublist: "set (splice_one k xs) \<subseteq> set xs"
  by (auto simp: splice_one_def dest: in_set_takeD in_set_dropD)

lemma unique_splice_one: "unique_ids ds \<Longrightarrow> unique_ids (splice_one k ds)"
proof -
  assume "unique_ids ds"
  then have d: "distinct (map doc_id (take k ds @ drop k ds))" by (simp add: unique_ids_def)
  have "distinct (map doc_id (take k ds @ drop (Suc k) ds))"
  proof (cases "k < length ds")
    case True
    then have "drop k ds = ds ! k # drop (Suc k) ds" by (simp add: Cons_nth_drop_Suc)
    with d show ?thesis by auto
  next
    case False
    then show ?thesis using d by simp
  qed
  then show ?thesis by (simp add: unique_ids_def splice_one_def)
qed

lemma evicted_no_such_id:
  assumes u: "unique_ids ds"
  shows "JStr a \<notin> doc_id ` set (evicted (JStr a) ds)"
proof (cases "findIndex (same_id (JStr a)) ds")
  case None
  then have "\<forall>x\<in>set ds. doc_id x \<noteq> JStr a" by (simp add: findIndex_None_iff same_id_JStr)
  then show ?thesis using None by (auto simp: evicted_def)
next
  case (Some k)
  then have k: "k < length ds" "doc_id (ds ! k) = JStr a"
    by (auto simp: findIndex_Some_iff same_id_JStr)
  from u have d: "distinct (map doc_id (take k ds @ ds ! k # drop (Suc k) ds))"
    using k(1) by (simp add: unique_ids_def id_take_nth_drop[symmetric])
  then have "doc_id (ds ! k) \<notin> doc_id ` set (take k ds @ drop (Suc k) ds)" by auto
  then show ?thesis using Some k(2) by (simp add: evicted_def splice_one_def)
qed

lemma unique_evicted: "unique_ids ds \<Longrightarrow> unique_ids (evicted i ds)"
  by (auto simp: evicted_def unique_splice_one split: option.splits)

lemma string_evicted: "string_ids ds \<Longrightarrow> string_ids (evicted i ds)"
  using splice_one_sublist by (fastforce simp: evicted_def string_ids_def list_all_iff split: option.splits)

lemma map_of_Object_assign_other:
  "k \<notin> fst ` set source \<Longrightarrow> map_of (Object_assign target source) k = map_of target k"
proof (induction source arbitrary: target)
  case Nil
  then show ?case by (simp add: Object_assign_def)
next
  case (Cons kv source)
  obtain k0 v0 where kv: "kv = (k0, v0)" by (cases kv)
  have step: "Object_assign target (kv # source) = Object_assign (AList.update k0 v0 target) source"
    by (simp add: Object_assign_def kv)
  from Cons.prems have "k \<noteq> k0" "k \<notin> fst ` set source" by (auto simp: kv)
  then show ?case unfolding step by (simp add: Cons.IH update_conv')
qed

lemma doc_id_newObj:
  "field_value m ''_id'' = None \<Longrightarrow> doc_id (newObj_of m) = m_id m"
proof -
  assume f: "field_value m ''_id'' = None"
  have "map_of (newObj_of m) ''_id'' = Some (m_id m)"
  proof (cases "m_fields m")
    case None
    then show ?thesis by (simp add: newObj_of_def Object_assign_def)
  next
    case (Some fs)
    with f have "''_id'' \<notin> fst ` set fs" by (simp add: field_value_def map_of_eq_None_iff)
    then show ?thesis using Some by (simp add: newObj_of_def map_of_Object_assign_other)
  qed
  then show ?thesis by (simp add: doc_id_def get_prop_def)
qed

lemma doc_id_changed_doc:
  assumes "field_value m ''_id'' = None" "''_id'' \<notin> cleared_keys m"
  shows "doc_id (changed_doc m d) = doc_id d"
proof -
  have 1: "map_of (case m_fields m of None \<Rightarrow> d | Some fs \<Rightarrow> Object_assign d fs) ''_id'' = map_of d ''_id''"
    using assms(1)
    by (auto simp: field_value_def map_of_Object_assign_other map_of_eq_None_iff split: option.splits)
  have 2: "map_of (changed_doc m d) ''_id'' = map_of d ''_id''"
    using assms(2) 1
    by (auto simp: changed_doc_def cleared_keys_def map_of_delete_keys Let_def split: option.splits)
  then show ?thesis by (simp add: doc_id_def get_prop_def)
qed

lemma added_ok:
  assumes ok: "unique_ids ds" "string_ids ds" and d: "diff_ok (Added m)"
  shows "unique_ids (evicted (m_id m) ds @ [newObj_of m]) \<and> string_ids (evicted (m_id m) ds @ [newObj_of m])"
proof -
  from d obtain a where a: "m_id m = JStr a" and f: "field_value m ''_id'' = None"
    by (cases "m_id m") (auto simp: diff_ok_def)
  have n: "doc_id (newObj_of m) = JStr a" using doc_id_newObj[OF f] a by simp
  have "JStr a \<notin> doc_id ` set (evicted (JStr a) ds)" by (rule evicted_no_such_id[OF ok(1)])
  moreover have "unique_ids (evicted (JStr a) ds)" by (rule unique_evicted[OF ok(1)])
  ultimately have "unique_ids (evicted (JStr a) ds @ [newObj_of m])"
    by (simp add: unique_ids_def n)
  moreover have "string_ids (evicted (JStr a) ds @ [newObj_of m])"
    using string_evicted[OF ok(2), of "JStr a"] n by (simp add: string_ids_def)
  ultimately show ?thesis by (simp add: a)
qed

lemma changed_ok:
  assumes ok: "unique_ids ds" "string_ids ds" and d: "diff_ok (Changed m)" and i: "i < length ds"
  shows "unique_ids (ds[i := changed_doc m (ds ! i)]) \<and> string_ids (ds[i := changed_doc m (ds ! i)])"
proof -
  from d have "doc_id (changed_doc m (ds ! i)) = doc_id (ds ! i)"
    by (simp add: diff_ok_def doc_id_changed_doc)
  then have m: "map doc_id (ds[i := changed_doc m (ds ! i)]) = map doc_id ds"
    using i by (simp add: map_update list_update_same_conv)
  have sm: "\<And>xs. string_ids xs = list_all is_JStr (map doc_id xs)"
    by (simp add: string_ids_def list_all_iff)
  have "string_ids (ds[i := changed_doc m (ds ! i)])"
    using ok(2) unfolding sm m .
  then show ?thesis using ok(1) m by (simp add: unique_ids_def)
qed

lemma diff_ok_message: "diff_message d = diff_message d' \<Longrightarrow> diff_ok d = diff_ok d'"
  by (simp add: diff_ok_def)

lemma apply_diff_ok:
  assumes ok: "store_ok (collections s)" and d: "diff_ok d"
  shows "store_ok (collections (apply_diff d s))"
proof -
  from ok have all: "\<And>n. unique_ids (coll (collections s) n) \<and> string_ids (coll (collections s) n)"
    by (simp add: store_ok_iff)
  have added: "unique_ids (coll (collections (fst (dispatchAdded s m))) n) \<and>
               string_ids (coll (collections (fst (dispatchAdded s m))) n)"
    if "diff_ok (Added m)" for m n
    using all[of n] added_ok[OF _ _ that, of "coll (collections s) n"]
    by (auto simp: coll_dispatchAdded)
  have "unique_ids (coll (collections (apply_diff d s)) n) \<and> string_ids (coll (collections (apply_diff d s)) n)" for n
  proof (cases d)
    case (Added m)
    with d added show ?thesis by simp
  next
    case (Changed m)
    show ?thesis
    proof (cases "findIndex (same_id (m_id m)) (coll (collections s) (m_collection m))")
      case None
      have "diff_ok (Added m)" using d Changed diff_ok_message[of "Added m" "Changed m"] by simp
      with None added Changed show ?thesis by (simp add: dispatchChanged_absent)
    next
      case (Some i)
      then have "i < length (coll (collections s) (m_collection m))" by (simp add: findIndex_Some_iff)
      with all[of n] changed_ok[of "coll (collections s) n" m i] d Changed Some show ?thesis
        by (auto simp: coll_dispatchChanged_found)
    qed
  next
    case (Removed m)
    with all[of n] show ?thesis
      by (auto simp: coll_dispatchRemoved unique_evicted string_evicted)
  qed
  then show ?thesis by (simp add: store_ok_iff)
qed

lemma added_replaces:
  assumes "findIndex (same_id (m_id m)) (coll (collections s) (m_collection m)) = Some i"
  shows "coll (collections (fst (dispatchAdded s m))) (m_collection m) =
           splice_one i (coll (collections s) (m_collection m)) @ [newObj_of m]"
  using assms by (simp add: coll_dispatchAdded evicted_def)

text \<open>
  C4, as the code has it. From a store in which every identifier is a string
  and no collection holds an identifier twice, every sequence of added, changed
  and removed messages whose ids are strings and whose payloads do not name
  \<^verbatim>\<open>_id\<close> leads to such a store again. And an added message whose id is found at
  index \<^verbatim>\<open>i\<close> leaves the collection without that stale document, followed by the
  new one.
\<close>

theorem diffs_keep_ids_unique:
  assumes ok: "store_ok (collections s)" and ds: "\<forall>d\<in>set ds. diff_ok d"
  shows "store_ok (collections (fold apply_diff ds s))
       \<and> (\<forall>m i. findIndex (same_id (m_id m)) (coll (collections s) (m_collection m)) = Some i \<longrightarrow>
             coll (collections (fst (dispatchAdded s m))) (m_collection m) =
               splice_one i (coll (collections s) (m_collection m)) @ [newObj_of m])"
proof -
  have "store_ok (collections (fold apply_diff ds s))"
    using ok ds
  proof (induction ds arbitrary: s)
    case Nil
    then show ?case by simp
  next
    case (Cons d ds)
    from Cons.prems have "store_ok (collections (apply_diff d s))" by (simp add: apply_diff_ok)
    with Cons.IH[of "apply_diff d s"] Cons.prems(2) show ?case by simp
  qed
  with added_replaces show ?thesis by blast
qed

lemma ex_diffs_result: "collections (fold apply_diff ex_diffs ex_one_a) =
    [(''tasks'', [[(''_id'', JStr ''a''), (''v'', JNum 2)]]), (''notes'', [[(''_id'', JStr ''n'')]])]"
  by (simp add: ex_diffs_def ex_one_a_def ex_client_def dispatchAdded_def dispatchChanged_def
      dispatchRemoved_def evict_stale_def ensure_collection_def hasOwnProperty_def coll_def
      same_id_def get_prop_def newObj_of_def Object_assign_def splice_one_def changed_doc_def
      delete_keys_def fullCopy_def Let_def)

theorem diffs_keep_ids_unique_witness:
  "store_ok (collections ex_one_a) \<and> list_all diff_ok ex_diffs \<and>
   store_ok (collections (fold apply_diff ex_diffs ex_one_a)) \<and>
   collections (fold apply_diff ex_diffs ex_one_a) =
     [(''tasks'', [[(''_id'', JStr ''a''), (''v'', JNum 2)]]), (''notes'', [[(''_id'', JStr ''n'')]])]"
proof -
  have ok: "store_ok (collections ex_one_a)"
    by (simp add: store_ok_def ex_one_a_def ex_client_def Object_keys_def coll_def unique_ids_def
        string_ids_def doc_id_def get_prop_def)
  have ds: "\<forall>d\<in>set ex_diffs. diff_ok d"
    by (simp add: ex_diffs_def diff_ok_def field_value_def cleared_keys_def)
  from diffs_keep_ids_unique[OF ok ds] ok ds ex_diffs_result show ?thesis by (simp add: list_all_iff)
qed

text \<open>
  C4 as stated fails for a message whose \<^verbatim>\<open>fields\<close> carry a key \<^verbatim>\<open>_id\<close>: nothing
  with the id \<^verbatim>\<open>"b"\<close> is stored, so nothing is evicted, and
  \<^verbatim>\<open>Object.assign({_id: "b"}, {_id: "a"})\<close> is a second document \<^verbatim>\<open>{_id: "a"}\<close>.
  It also fails for identifiers that \<^verbatim>\<open>==\<close> does not tell apart: an added message
  with the id \<^verbatim>\<open>undefined\<close> evicts the document \<^verbatim>\<open>{_id: null}\<close>, the first that is
  loosely equal, and appends a second document \<^verbatim>\<open>{_id: undefined}\<close>.
\<close>

theorem added_id_in_fields_counterexample:
  "unique_ids (coll (collections ex_one_a) ''tasks'') \<and>
   coll (collections (fst (dispatchAdded ex_one_a ex_added_b_named_a))) ''tasks'' =
     [[(''_id'', JStr ''a'')], [(''_id'', JStr ''a'')]] \<and>
   \<not> unique_ids (coll (collections (fst (dispatchAdded ex_one_a ex_added_b_named_a))) ''tasks'') \<and>
   unique_ids (coll (collections ex_null_undefined) ''tasks'') \<and>
   coll (collections (fst (dispatchAdded ex_null_undefined ex_added_undefined))) ''tasks'' =
     [[(''_id'', JUndefined)], [(''_id'', JUndefined)]] \<and>
   \<not> unique_ids (coll (collections (fst (dispatchAdded ex_null_undefined ex_added_undefined))) ''tasks'')"
  by (simp add: ex_one_a_def ex_client_def ex_added_b_named_a_def ex_null_undefined_def
      ex_added_undefined_def dispatchAdded_def evict_stale_def ensure_collection_def
      hasOwnProperty_def coll_def same_id_def get_prop_def newObj_of_def Object_assign_def
      splice_one_def unique_ids_def doc_id_def Let_def)

section \<open>Bulk operations: clearData and importData\<close>

lemma hear_resolved_gen:
  assumes "op_listening op" "\<not> op_resolved op"
  shows "op_resolved (hear ids op) \<longleftrightarrow>
     op_counter op < op_totalDocuments op \<and>
     op_totalDocuments op - op_counter op \<le> count_tagged (op_uniqueId op) ids"
  using assms
proof (induction ids arbitrary: op)
  case Nil
  then show ?case by (simp add: hear_def count_tagged_def)
next
  case (Cons i ids)
  have stay: "\<And>op. \<not> op_listening op \<Longrightarrow> hear ids op = op"
    unfolding hear_def by (induction ids) auto
  show ?case
  proof (cases "i = Some (op_uniqueId op)")
    case False
    then have "hear (i # ids) op = hear ids op"
      using Cons.prems by (simp add: hear_def bulk_listener_def)
    with False Cons.IH[OF Cons.prems] show ?thesis by (simp add: count_tagged_def)
  next
    case True
    show ?thesis
    proof (cases "op_counter op + 1 = op_totalDocuments op")
      case last: True
      let ?op' = "op\<lparr>op_counter := op_counter op + 1, op_listening := False, op_resolved := True\<rparr>"
      have "hear (i # ids) op = hear ids ?op'"
        using True last Cons.prems by (simp add: hear_def bulk_listener_def Let_def)
      then have "op_resolved (hear (i # ids) op)" by (simp add: stay)
      then show ?thesis using True last by (simp add: count_tagged_def)
    next
      case notlast: False
      let ?op' = "op\<lparr>op_counter := op_counter op + 1\<rparr>"
      have h: "hear (i # ids) op = hear ids ?op'"
        using True notlast Cons.prems by (simp add: hear_def bulk_listener_def Let_def)
      have "op_resolved (hear ids ?op') \<longleftrightarrow>
         op_counter ?op' < op_totalDocuments ?op' \<and>
         op_totalDocuments ?op' - op_counter ?op' \<le> count_tagged (op_uniqueId ?op') ids"
        using Cons.prems by (intro Cons.IH) simp_all
      then show ?thesis using True notlast unfolding h by (auto simp: count_tagged_def)
    qed
  qed
qed

lemma deliver_added_fst:
  "fst (fold deliver_added evs (s, op)) = fold (\<lambda>m s. fst (dispatchAdded s m)) (map fst evs) s"
proof (induction evs arbitrary: s op)
  case Nil
  then show ?case by simp
next
  case (Cons ev evs)
  obtain m i where ev: "ev = (m, i)" by (cases ev)
  obtain s' calls thrown where d: "dispatchAdded s m = (s', calls, thrown)"
    by (cases "dispatchAdded s m")
  have "deliver_added (m, i) (s, op) =
      (fst (dispatchAdded s m), if thrown = None \<and> op_listening op then bulk_listener op i else op)"
    by (simp add: deliver_added_def d)
  then show ?case by (simp add: ev Cons.IH)
qed

lemma callable_never_aborts:
  "callable_filters s \<Longrightarrow> list_all (\<lambda>l. \<not> aborts name l) (onChangeFuncs s)"
  by (auto simp: callable_filters_def aborts_def list_all_iff)

lemma callable_dispatchAdded: "callable_filters (fst (dispatchAdded s m)) = callable_filters s"
  by (simp add: callable_filters_def listeners_dispatchAdded)

lemma deliver_added_quiet:
  assumes "callable_filters s"
  shows "fold deliver_added evs (s, op) =
     (fold (\<lambda>m s. fst (dispatchAdded s m)) (map fst evs) s, hear (map snd evs) op)"
  using assms
proof (induction evs arbitrary: s op)
  case Nil
  then show ?case by (simp add: hear_def)
next
  case (Cons ev evs)
  obtain m i where ev: "ev = (m, i)" by (cases ev)
  have t: "thrown_of (dispatchAdded s m) = None"
    using callable_never_aborts[OF Cons.prems] by (simp add: thrown_dispatchAdded)
  have step: "deliver_added (m, i) (s, op) =
      (fst (dispatchAdded s m), if op_listening op then bulk_listener op i else op)"
    using t by (cases "dispatchAdded s m") (simp add: deliver_added_def thrown_of_def)
  have c: "callable_filters (fst (dispatchAdded s m))"
    using Cons.prems by (simp add: callable_dispatchAdded)
  show ?case by (simp add: ev step Cons.IH[OF c] hear_def)
qed

lemma emitted_Emits: "emitted e (map (\<lambda>m. Emit e m t) ms) = map (\<lambda>m. (m, Some t)) ms"
  by (induction ms) auto

lemma length_added_messages: "length (added_messages c) = count_documents c"
proof -
  have "fold (\<lambda>collection total. total + length (coll c collection)) ks n
      = n + length (concat (map (\<lambda>collection. map (f collection) (coll c collection)) ks))" for ks n and f :: "string \<Rightarrow> document \<Rightarrow> ddp_message"
    by (induction ks arbitrary: n) auto
  from this[of "Object_keys c" 0] show ?thesis
    by (simp add: added_messages_def count_documents_def)
qed

lemma update_fresh: "k \<notin> fst ` set al \<Longrightarrow> AList.update k v al = al @ [(k, v)]"
  by (induction al) auto

lemma delete_absent: "k \<notin> fst ` set al \<Longrightarrow> AList.delete k al = al"
  by (induction al) auto

lemma Object_assign_fresh:
  "is_object source \<Longrightarrow> fst ` set source \<inter> fst ` set target = {} \<Longrightarrow>
   Object_assign target source = target @ source"
proof (induction source arbitrary: target)
  case Nil
  then show ?case by (simp add: Object_assign_def)
next
  case (Cons kv source)
  obtain k0 v0 where kv: "kv = (k0, v0)" by (cases kv)
  have step: "Object_assign target (kv # source) = Object_assign (AList.update k0 v0 target) source"
    by (simp add: Object_assign_def kv)
  from Cons.prems have fresh: "k0 \<notin> fst ` set target" and d: "is_object source"
    and n: "k0 \<notin> fst ` set source" and dj: "fst ` set source \<inter> fst ` set target = {}"
    by (auto simp: kv is_object_def)
  have u: "AList.update k0 v0 target = target @ [(k0, v0)]" by (rule update_fresh[OF fresh])
  have "fst ` set source \<inter> fst ` set (target @ [(k0, v0)]) = {}" using n dj by auto
  from Cons.IH[OF d this] show ?case unfolding step u by (simp add: kv)
qed

lemma loose_eq_undefined: "loose_eq v JUndefined \<longleftrightarrow> v = JUndefined \<or> v = JNull"
  by (cases v) simp_all

text \<open>
  The message for a document of exported shape carries the id \<^verbatim>\<open>undefined\<close>
  (the document has no key \<^verbatim>\<open>id\<close>) and the whole document as its fields; the
  document stored for it has the keys and values of the imported one.
\<close>

lemma import_message_exported:
  assumes "exported_doc doc"
  shows "m_id (import_message n doc) = JUndefined"
    and "map_of (newObj_of (import_message n doc)) = map_of doc"
    and "\<not> same_id JUndefined (newObj_of (import_message n doc))"
proof -
  from assms have o: "is_object doc" and nid: "''id'' \<notin> fst ` set doc"
    and u: "get_prop doc ''_id'' \<noteq> JUndefined" and nl: "get_prop doc ''_id'' \<noteq> JNull"
    by (auto simp: exported_doc_def hasOwnProperty_def map_of_eq_None_iff)
  have a: "Object_assign [] doc = doc" using Object_assign_fresh[OF o, of "[]"] by simp
  have d: "AList.delete ''id'' doc = doc" by (rule delete_absent[OF nid])
  from nid have "map_of doc ''id'' = None" by (simp add: map_of_eq_None_iff)
  then show "m_id (import_message n doc) = JUndefined"
    by (simp add: import_message_def get_prop_def)
  have new: "newObj_of (import_message n doc) = Object_assign [(''_id'', get_prop doc ''id'')] doc"
    by (simp add: newObj_of_def import_message_def a d)
  from u obtain v where v: "map_of doc ''_id'' = Some v"
    by (cases "map_of doc ''_id''") (auto simp: get_prop_def)
  have "map_of (newObj_of (import_message n doc)) k = map_of doc k" for k
    unfolding new map_of_Object_assign[OF o]
    using v by (cases "k = ''_id''") (auto split: option.splits)
  then show m: "map_of (newObj_of (import_message n doc)) = map_of doc" by (rule ext)
  show "\<not> same_id JUndefined (newObj_of (import_message n doc))"
    using u nl by (simp add: same_id_def get_prop_def m loose_eq_undefined)
qed

lemma added_messages_alt:
  "added_messages c = concat (map (\<lambda>n. map (import_message n) (coll c n)) (Object_keys c))"
  by (simp add: added_messages_def import_message_def[abs_def])

lemma messages_of_collection:
  assumes "is_object c"
  shows "filter (\<lambda>m. m_collection m = n) (added_messages c) = map (import_message n) (coll c n)"
proof -
  have gen: "distinct ks \<Longrightarrow>
      filter (\<lambda>m. m_collection m = n) (concat (map (\<lambda>k. map (import_message k) (coll c k)) ks)) =
      (if n \<in> set ks then map (import_message n) (coll c n) else [])" for ks
  proof (induction ks)
    case Nil
    then show ?case by simp
  next
    case (Cons k ks)
    have here: "filter (\<lambda>m. m_collection m = n) (map (import_message k) (coll c k)) =
        (if k = n then map (import_message n) (coll c n) else [])"
      by (auto simp: filter_map comp_def import_message_def)
    from Cons show ?case by (auto simp: here)
  qed
  have "coll c n = []" if "n \<notin> set (Object_keys c)"
  proof -
    from that have "map_of c n = None" by (simp add: Object_keys_def map_of_eq_None_iff)
    then show ?thesis by (simp add: coll_def)
  qed
  with gen[of "Object_keys c"] assms show ?thesis
    by (auto simp: added_messages_alt is_object_def Object_keys_def)
qed

text \<open>
  Added messages whose ids match no stored document and no document stored for
  one of them only append.
\<close>

lemma added_fold:
  assumes "\<forall>m\<in>set ms. \<forall>d\<in>set (coll (collections s) n) \<union> newObj_of ` set ms. \<not> same_id (m_id m) d"
  shows "coll (collections (fold (\<lambda>m s. fst (dispatchAdded s m)) ms s)) n =
           coll (collections s) n @ map newObj_of (filter (\<lambda>m. m_collection m = n) ms)"
  using assms
proof (induction ms arbitrary: s)
  case Nil
  then show ?case by simp
next
  case (Cons m ms)
  let ?s' = "fst (dispatchAdded s m)"
  have sub: "set (coll (collections ?s') n) \<subseteq> set (coll (collections s) n) \<union> {newObj_of m}"
    using splice_one_sublist[of _ "coll (collections s) n"]
    by (auto simp: coll_dispatchAdded evicted_def split: option.splits)
  have next_ok: "\<forall>m'\<in>set ms. \<forall>d\<in>set (coll (collections ?s') n) \<union> newObj_of ` set ms. \<not> same_id (m_id m') d"
  proof (intro ballI)
    fix m' d assume m': "m' \<in> set ms" and d: "d \<in> set (coll (collections ?s') n) \<union> newObj_of ` set ms"
    from d sub have d': "d \<in> set (coll (collections s) n) \<union> newObj_of ` set (m # ms)" by auto
    from m' have "m' \<in> set (m # ms)" by simp
    from Cons.prems[rule_format, OF this d'] show "\<not> same_id (m_id m') d" .
  qed
  have c': "coll (collections ?s') n =
      coll (collections s) n @ (if m_collection m = n then [newObj_of m] else [])"
  proof (cases "m_collection m = n")
    case True
    have "\<forall>d\<in>set (coll (collections s) n). \<not> same_id (m_id m) d"
      using Cons.prems by simp
    then have "findIndex (same_id (m_id m)) (coll (collections s) n) = None"
      by (simp add: findIndex_None_iff)
    with True show ?thesis by (simp add: coll_dispatchAdded evicted_def)
  next
    case False
    then show ?thesis by (simp add: coll_dispatchAdded)
  qed
  from Cons.IH[OF next_ok] show ?case by (simp add: c')
qed

lemma importData_decoded:
  assumes "decode parse data = Some c"
  shows "importData parse s data =
     Some (s\<lparr>opGenId := opGenId s + 1,
             ddpConnection := ddpConnection s @ [On ''added''] @
               map (\<lambda>m. Emit ''added'' m (instance_id s, opGenId s)) (added_messages c)\<rparr>,
           \<lparr>op_uniqueId = (instance_id s, opGenId s), op_counter = 0,
            op_totalDocuments = count_documents c, op_listening = True, op_resolved = False\<rparr>)"
  using assms by (simp add: importData_def decode_def Let_def)

lemma exported_docs:
  assumes "export_shaped c"
  shows "list_all exported_doc (coll c n)"
proof (cases "n \<in> set (Object_keys c)")
  case True
  with assms show ?thesis by (auto simp: export_shaped_def list_all_iff)
next
  case False
  then have "map_of c n = None" by (simp add: Object_keys_def map_of_eq_None_iff)
  then show ?thesis by (simp add: coll_def)
qed

lemma import_store:
  assumes ok: "export_shaped c" and empty: "\<forall>n. coll (collections s) n = []"
  shows "map map_of (coll (collections (fold (\<lambda>m s. fst (dispatchAdded s m)) (added_messages c) s)) n) =
           map map_of (coll c n)"
proof -
  from ok have obj: "is_object c" by (simp add: export_shaped_def)
  have msgs: "\<exists>k doc. exported_doc doc \<and> m = import_message k doc" if "m \<in> set (added_messages c)" for m
  proof -
    from that obtain k doc where "doc \<in> set (coll c k)" and m: "m = import_message k doc"
      by (auto simp: added_messages_alt)
    with exported_docs[OF ok, of k] have "exported_doc doc" by (simp add: list_all_iff)
    with m show ?thesis by blast
  qed
  have 1: "\<forall>m\<in>set (added_messages c).
      \<forall>d\<in>set (coll (collections s) n) \<union> newObj_of ` set (added_messages c). \<not> same_id (m_id m) d"
  proof (intro ballI)
    fix m d assume m: "m \<in> set (added_messages c)"
      and d: "d \<in> set (coll (collections s) n) \<union> newObj_of ` set (added_messages c)"
    from msgs[OF m] have u: "m_id m = JUndefined" by (auto simp: import_message_exported(1))
    from d empty obtain m' where "m' \<in> set (added_messages c)" and "d = newObj_of m'" by auto
    with msgs[of m'] show "\<not> same_id (m_id m) d" by (auto simp: u import_message_exported(3))
  qed
  have f: "filter (\<lambda>m. m_collection m = n) (added_messages c) = map (import_message n) (coll c n)"
    by (rule messages_of_collection[OF obj])
  have "map map_of (map newObj_of (map (import_message n) (coll c n))) = map map_of (coll c n)"
    using exported_docs[OF ok, of n] by (simp add: list_all_iff import_message_exported(2))
  with added_fold[OF 1] show ?thesis
    using empty by (simp add: f)
qed

text \<open>
  C3, as the code has it. Let the data decode to the mapping \<^verbatim>\<open>c\<close>. Then
  \<^verbatim>\<open>importData\<close> emits one tagged added message per document of \<^verbatim>\<open>c\<close>, and its
  promise is resolved after a sequence of added notifications if and only if
  \<^verbatim>\<open>c\<close> holds a document and at least as many of them as \<^verbatim>\<open>c\<close> has documents
  carried the tag of the operation (the listener stops at that one). When
  moreover the client holds no document beforehand and the documents of \<^verbatim>\<open>c\<close>
  carry their identifier under \<^verbatim>\<open>_id\<close>, as exported data does, then once all
  emitted messages have arrived a fetch of each collection returns exactly the
  documents imported into it, in order, each with the same keys and values; and
  by then the promise has resolved if \<^verbatim>\<open>c\<close> holds a document and no listener
  makes a dispatcher throw.
\<close>

theorem importData_counts_then_stores:
  assumes dec: "decode parse data = Some c"
  shows "\<exists>s' op. importData parse s data = Some (s', op)
     \<and> emitted ''added'' (new_calls s s') = map (\<lambda>m. (m, Some (op_uniqueId op))) (added_messages c)
     \<and> length (added_messages c) = count_documents c
     \<and> (\<forall>ids. op_resolved (hear ids op) \<longleftrightarrow>
               0 < count_documents c \<and> count_documents c \<le> count_tagged (op_uniqueId op) ids)
     \<and> (export_shaped c \<and> (\<forall>n. coll (collections s) n = []) \<longrightarrow>
          (\<exists>s'' r. importData_run parse s data = Some (s'', r)
             \<and> (\<forall>n. map map_of (fetch s'' \<lparr>c_name = n, c_filter = None\<rparr> None) = map map_of (coll c n))
             \<and> (callable_filters s \<longrightarrow> r = (0 < count_documents c))))"
proof -
  let ?t = "(instance_id s, opGenId s)"
  let ?s' = "s\<lparr>opGenId := opGenId s + 1,
             ddpConnection := ddpConnection s @ [On ''added''] @
               map (\<lambda>m. Emit ''added'' m ?t) (added_messages c)\<rparr>"
  let ?op = "\<lparr>op_uniqueId = ?t, op_counter = 0,
            op_totalDocuments = count_documents c, op_listening = True, op_resolved = False\<rparr>"
  have imp: "importData parse s data = Some (?s', ?op)" by (rule importData_decoded[OF dec])
  have em: "emitted ''added'' (new_calls s ?s') = map (\<lambda>m. (m, Some ?t)) (added_messages c)"
    by (simp add: new_calls_def emitted_Emits)
  have len: "length (added_messages c) = count_documents c" by (rule length_added_messages)
  have res: "op_resolved (hear ids ?op) \<longleftrightarrow>
      0 < count_documents c \<and> count_documents c \<le> count_tagged ?t ids" for ids
    using hear_resolved_gen[of ?op ids] by simp
  have run: "\<exists>s'' r. importData_run parse s data = Some (s'', r)
             \<and> (\<forall>n. map map_of (fetch s'' \<lparr>c_name = n, c_filter = None\<rparr> None) = map map_of (coll c n))
             \<and> (callable_filters s \<longrightarrow> r = (0 < count_documents c))"
    if ok: "export_shaped c" and empty: "\<forall>n. coll (collections s) n = []"
  proof -
    let ?evs = "map (\<lambda>m. (m, Some ?t)) (added_messages c)"
    let ?X = "fold deliver_added ?evs (?s', ?op)"
    let ?s'' = "fold (\<lambda>m s. fst (dispatchAdded s m)) (added_messages c) ?s'"
    have r: "importData_run parse s data = Some (fst ?X, op_resolved (snd ?X))"
      unfolding importData_run_def imp option.case prod.case em by (simp add: case_prod_beta)
    have st: "fst ?X = ?s''"
      unfolding deliver_added_fst by (simp add: comp_def)
    have e': "\<forall>n. coll (collections ?s') n = []" using empty by simp
    have fe: "map map_of (fetch ?s'' \<lparr>c_name = n, c_filter = None\<rparr> None) = map map_of (coll c n)" for n
      using import_store[OF ok e', of n] by (simp add: fetch_no_settings if_given_simps fullCopy_def)
    have q: "op_resolved (snd ?X) = (0 < count_documents c)" if "callable_filters s"
    proof -
      from that have "callable_filters ?s'" by (simp add: callable_filters_def)
      then have "?X = (?s'', hear (map (\<lambda>m. Some ?t) (added_messages c)) ?op)"
        by (simp add: deliver_added_quiet comp_def)
      moreover have "count_tagged ?t (map (\<lambda>m. Some ?t) (added_messages c)) = count_documents c"
        by (simp add: count_tagged_def len)
      ultimately show ?thesis using res by simp
    qed
    show ?thesis
    proof (intro exI[of _ ?s''] exI[of _ "op_resolved (snd ?X)"] conjI allI impI)
      show "importData_run parse s data = Some (?s'', op_resolved (snd ?X))"
        using r st by simp
      show "map map_of (fetch ?s'' \<lparr>c_name = n, c_filter = None\<rparr> None) = map map_of (coll c n)" for n
        by (rule fe)
      show "op_resolved (snd ?X) = (0 < count_documents c)" if "callable_filters s"
        by (rule q[OF that])
    qed
  qed
  from imp em len res run show ?thesis
    by (intro exI[of _ ?s'] exI[of _ ?op]) auto
qed

theorem importData_counts_then_stores_witness:
  "map_option snd (importData_run (\<lambda>t. Some ex_export) ex_client (Text ''tasks'')) = Some True \<and>
   map_option (\<lambda>r. map map_of (fetch (fst r) \<lparr>c_name = ''tasks'', c_filter = None\<rparr> None))
      (importData_run (\<lambda>t. Some ex_export) ex_client (Text ''tasks'')) =
     Some (map map_of [[(''_id'', JStr ''a''), (''x'', JNum 1)], [(''_id'', JStr ''b'')]])"
proof -
  have dec: "decode (\<lambda>t. Some ex_export) (Text ''tasks'') = Some ex_export"
    by (simp add: decode_def)
  have pos: "0 < count_documents ex_export"
    by (simp add: count_documents_def ex_export_def Object_keys_def coll_def)
  have ok: "export_shaped ex_export"
    by (simp add: export_shaped_def exported_doc_def is_object_def hasOwnProperty_def ex_export_def
        Object_keys_def coll_def get_prop_def)
  have empty: "\<forall>n. coll (collections ex_client) n = []"
    by (simp add: ex_client_def coll_def)
  have quiet: "callable_filters ex_client"
    by (simp add: callable_filters_def ex_client_def)
  have docs: "coll ex_export ''tasks'' = [[(''_id'', JStr ''a''), (''x'', JNum 1)], [(''_id'', JStr ''b'')]]"
    by (simp add: ex_export_def coll_def)
  have "\<exists>s''. importData_run (\<lambda>t. Some ex_export) ex_client (Text ''tasks'') = Some (s'', True)
      \<and> (\<forall>n. map map_of (fetch s'' \<lparr>c_name = n, c_filter = None\<rparr> None) = map map_of (coll ex_export n))"
    using importData_counts_then_stores[OF dec, of ex_client] ok empty quiet pos
    by (elim exE conjE impE) auto
  then obtain s'' where "importData_run (\<lambda>t. Some ex_export) ex_client (Text ''tasks'') = Some (s'', True)"
    and "\<forall>n. map map_of (fetch s'' \<lparr>c_name = n, c_filter = None\<rparr> None) = map map_of (coll ex_export n)"
    by auto
  then show ?thesis by (simp add: docs)
qed

text \<open>
  C3 as stated fails on a client that already holds a document: after the
  import of the one document \<^verbatim>\<open>{_id: "b"}\<close> has resolved, the fetch returns two.
\<close>

theorem importData_keeps_old_documents_counterexample:
  "coll (collections ex_one_a) ''tasks'' = [[(''_id'', JStr ''a'')]] \<and>
   coll ex_export_b ''tasks'' = [[(''_id'', JStr ''b'')]] \<and>
   map_option snd (importData_run (\<lambda>t. None) ex_one_a (Raw ex_export_b)) = Some True \<and>
   map_option (\<lambda>r. fetch (fst r) \<lparr>c_name = ''tasks'', c_filter = None\<rparr> None)
      (importData_run (\<lambda>t. None) ex_one_a (Raw ex_export_b)) =
     Some [[(''_id'', JStr ''a'')], [(''_id'', JStr ''b'')]]"
  by (simp add: importData_run_def importData_def new_calls_def deliver_added_def
      count_documents_def added_messages_def Object_keys_def coll_def get_prop_def
      ex_one_a_def ex_client_def ex_export_b_def Object_assign_def
      dispatchAdded_def evict_stale_def ensure_collection_def hasOwnProperty_def same_id_def
      newObj_of_def bulk_listener_def fetch_def fullCopy_def Let_def)

text \<open>
  C1 fails on the code. The client stores the task \<^verbatim>\<open>{_id: "a"}\<close>. \<^verbatim>\<open>clearData\<close>
  reads \<^verbatim>\<open>doc.id\<close>, which this document does not have, so the one removed message
  it emits carries the id \<^verbatim>\<open>undefined\<close>; \<^verbatim>\<open>dispatchRemoved\<close> finds no such document;
  the listener counts the tagged event, the promise resolves, and the task is
  still stored.
\<close>

theorem clearData_leaves_document:
  "coll (collections ex_one_a) ''tasks'' = [[(''_id'', JStr ''a'')]] \<and>
   removed_messages (collections ex_one_a) =
     [\<lparr>m_collection = ''tasks'', m_id = JUndefined, m_fields = None, m_cleared = None\<rparr>] \<and>
   snd (clearData_run ex_one_a) \<and>
   coll (collections (fst (clearData_run ex_one_a))) ''tasks'' = [[(''_id'', JStr ''a'')]]"
  by (simp add: clearData_run_def clearData_def new_calls_def deliver_removed_def
      count_documents_def removed_messages_def Object_keys_def coll_def get_prop_def
      ex_one_a_def ex_client_def
      dispatchRemoved_def ensure_collection_def hasOwnProperty_def same_id_def
      bulk_listener_def Let_def)

end
